theory Spec2Isabelle
  imports Main "HOL-Library.Word" "HOL-Library.Finite_Map" "HOL-Library.Monad_Syntax"
begin

section \<open>Data model of \<^verbatim>\<open>shared.h\<close>\<close>

text \<open>
  Addresses are natural numbers; a raw pointer is \<open>addr option\<close> with \<open>None\<close> for
  \<^verbatim>\<open>nullptr\<close>.  Control blocks and pointees live in two typed heaps.  A result
  of \<open>None\<close> stands for an execution without defined meaning in C++ (a dangling
  \<^verbatim>\<open>block_\<close> is dereferenced, a dead object is deleted, a handle that does not
  exist is used).  Execution is single-threaded, as the counts are plain \<^verbatim>\<open>size_t\<close>.
  A pointee has no handle among its members other than \<^verbatim>\<open>weak_this_\<close>, which it has
  when its class derives from some \<^verbatim>\<open>EnableSharedFromThis<Y>\<close>.  That class declares no
  copy operations: its implicit copy and move constructors and assignment operators
  copy, move and assign \<^verbatim>\<open>weak_this_\<close>, and its implicit destructor destroys it.
\<close>

type_synonym addr = nat

text \<open>\<^verbatim>\<open>class SharedPtr { T* ptr_; BaseBlock* block_; }\<close>\<close>

text \<open>The fields are named as in the source, without the trailing underscore.\<close>

record SharedPtr =
  ptr :: "addr option"
  block :: "addr option"

text \<open>
  The two classes derived from \<^verbatim>\<open>BaseBlock\<close>: \<^verbatim>\<open>ControlBlock<U>\<close> holds the raw
  pointer it deletes, the local \<^verbatim>\<open>Control\<close> of \<^verbatim>\<open>MakeShared\<close> holds the storage of the
  value (named by the address of that storage).
\<close>

datatype BlockVariant = ControlBlock "addr option" | Control addr

text \<open>\<^verbatim>\<open>struct BaseBlock { size_t cnt = 1; ... }\<close> with a 64-bit \<^verbatim>\<open>size_t\<close>.\<close>

record BaseBlock =
  cnt :: "64 word"
  variant :: BlockVariant

text \<open>
  A pointee: its value, and the member \<^verbatim>\<open>weak_this_.ptr_\<close> when its class has
  \<^verbatim>\<open>EnableSharedFromThis<Y>\<close> among its bases, for some \<^verbatim>\<open>Y\<close> (\<open>None\<close> when it has not).
\<close>

record 'v object =
  val :: 'v
  weak_this :: "SharedPtr option"

text \<open>Instrumentation: what the library allocates, constructs, destroys and frees.\<close>

datatype event = Alloc addr | Construct addr | Destroy addr | Dealloc addr

record 'v state =
  handles :: "(nat, SharedPtr) fmap"
  blocks :: "(addr, BaseBlock) fmap"
  objs :: "(addr, 'v object) fmap"
  next_addr :: addr
  trace :: "event list"

text \<open>
  A \<^verbatim>\<open>SharedPtr\<close> object is either a variable of the client, named by a number, or the
  member \<^verbatim>\<open>weak_this_.ptr_\<close> of the pointee at an address.  \<^verbatim>\<open>this != &other\<close> compares
  these locations.
\<close>

datatype hloc = Var nat | Weak addr

definition nullh :: SharedPtr where
  "nullh = \<lparr>ptr = None, block = None\<rparr>"

definition init_state :: "'v state" where
  "init_state = \<lparr>handles = fmempty, blocks = fmempty, objs = fmempty, next_addr = 0, trace = []\<rparr>"

fun get_handle :: "'v state \<Rightarrow> hloc \<Rightarrow> SharedPtr option" where
  "get_handle s (Var n) = fmlookup (handles s) n"
| "get_handle s (Weak a) =
     (case fmlookup (objs s) a of None \<Rightarrow> None | Some ob \<Rightarrow> weak_this ob)"

fun set_handle :: "hloc \<Rightarrow> SharedPtr \<Rightarrow> 'v state \<Rightarrow> 'v state" where
  "set_handle (Var n) h s = s\<lparr>handles := fmupd n h (handles s)\<rparr>"
| "set_handle (Weak a) h s =
     (case fmlookup (objs s) a of
        None \<Rightarrow> s
      | Some ob \<Rightarrow> s\<lparr>objs := fmupd a (ob\<lparr>weak_this := Some h\<rparr>) (objs s)\<rparr>)"

definition log :: "event list \<Rightarrow> 'v state \<Rightarrow> 'v state" where
  "log es s = s\<lparr>trace := trace s @ es\<rparr>"

section \<open>Releasing a block\<close>

text \<open>
  \<open>release s b\<close> is the body of \<^verbatim>\<open>Reset()\<close> under \<^verbatim>\<open>if (block_)\<close>:
  \<^verbatim>\<open>if (--block_->cnt == 0) { block_->DeleteObject(); delete block_; }\<close>.
  \<^verbatim>\<open>DeleteObject\<close> runs the destructor of the pointee, which destroys the member
  \<^verbatim>\<open>weak_this_\<close>, that is, runs \<^verbatim>\<open>Reset()\<close> on it: the recursive call.
  \<^verbatim>\<open>ControlBlock<U>::DeleteObject\<close> is \<^verbatim>\<open>delete ptr\<close> (nothing for a null pointer, and
  the pointee's memory is returned), \<^verbatim>\<open>Control::DeleteObject\<close> runs the destructor in
  place.
\<close>

definition pointee :: "BlockVariant \<Rightarrow> addr option" where
  "pointee v = (case v of ControlBlock p \<Rightarrow> p | Control a \<Rightarrow> Some a)"

definition destroy_events :: "BlockVariant \<Rightarrow> addr \<Rightarrow> event list" where
  "destroy_events v a = (case v of ControlBlock p \<Rightarrow> [Destroy a, Dealloc a] | Control c \<Rightarrow> [Destroy a])"

definition delete_block :: "'v state \<Rightarrow> addr \<Rightarrow> 'v state option" where
  "delete_block s b =
     (case fmlookup (blocks s) b of
        None \<Rightarrow> None
      | Some B \<Rightarrow> Some (log [Dealloc b] (s\<lparr>blocks := fmdrop b (blocks s)\<rparr>)))"

function release :: "'v state \<Rightarrow> addr \<Rightarrow> 'v state option" where
  "release s b =
     (case fmlookup (blocks s) b of
        None \<Rightarrow> None
      | Some B \<Rightarrow>
          let c = cnt B - 1;
              s1 = s\<lparr>blocks := fmupd b (B\<lparr>cnt := c\<rparr>) (blocks s)\<rparr>
          in if c = 0 then
               (case pointee (variant B) of
                  None \<Rightarrow> delete_block s1 b
                | Some a \<Rightarrow>
                    (case fmlookup (objs s1) a of
                       None \<Rightarrow> None
                     | Some ob \<Rightarrow>
                         let s2 = log (destroy_events (variant B) a) (s1\<lparr>objs := fmdrop a (objs s1)\<rparr>)
                         in (case weak_this ob of
                               None \<Rightarrow> delete_block s2 b
                             | Some w \<Rightarrow>
                                 (case block w of
                                    None \<Rightarrow> delete_block s2 b
                                  | Some b' \<Rightarrow>
                                      (case release s2 b' of
                                         None \<Rightarrow> None
                                       | Some s3 \<Rightarrow> delete_block s3 b)))))
             else Some s1)"
  by pat_completeness auto
termination
proof (relation "measure (\<lambda>(s, b). card (fmdom' (objs s)))")
  show "wf (measure (\<lambda>(s :: 'v state, b :: addr). card (fmdom' (objs s))))"
    by simp
next
  fix s :: "'v state" and b B c s1 a ob s2 w b'
  assume s1: "s1 = s\<lparr>blocks := fmupd b (B\<lparr>cnt := c\<rparr>) (blocks s)\<rparr>"
    and a: "fmlookup (objs s1) a = Some ob"
    and s2: "s2 = log (destroy_events (variant B) a) (s1\<lparr>objs := fmdrop a (objs s1)\<rparr>)"
  have "a \<in> fmdom' (objs s)"
    using a s1 by (simp add: fmdom'I)
  moreover have "fmdom' (objs s2) = fmdom' (objs s) - {a}"
    using s1 s2 by (simp add: log_def)
  ultimately have "card (fmdom' (objs s2)) < card (fmdom' (objs s))"
    by (metis card_Diff1_less finite_fmdom')
  then show "((s2, b'), (s, b)) \<in> measure (\<lambda>(s, b). card (fmdom' (objs s)))"
    by simp
qed

declare release.simps [simp del]

section \<open>The members of \<^verbatim>\<open>SharedPtr\<close>\<close>

text \<open>
  Every member takes the location of \<^verbatim>\<open>*this\<close>.  A constructor creates the variable
  it is given and has no meaning when that variable exists already.  Allocation
  (\<^verbatim>\<open>new\<close>) takes the next unused address and always succeeds.  The implicit
  conversions between pointer types (\<^verbatim>\<open>static_cast<T*>(p)\<close>, \<^verbatim>\<open>Y*\<close> to \<^verbatim>\<open>T*\<close>) keep
  the address.
\<close>

text \<open>\<^verbatim>\<open>if (block_) { ++block_->cnt; }\<close>\<close>

definition share :: "'v state \<Rightarrow> addr option \<Rightarrow> 'v state option" where
  "share s bo =
     (case bo of
        None \<Rightarrow> Some s
      | Some b \<Rightarrow>
          (case fmlookup (blocks s) b of
             None \<Rightarrow> None
           | Some B \<Rightarrow> Some (s\<lparr>blocks := fmupd b (B\<lparr>cnt := cnt B + 1\<rparr>) (blocks s)\<rparr>)))"

text \<open>\<^verbatim>\<open>void Reset() noexcept\<close>\<close>

definition Reset :: "'v state \<Rightarrow> hloc \<Rightarrow> 'v state option" where
  "Reset s this = do {
     h \<leftarrow> get_handle s this;
     s1 \<leftarrow> (case block h of None \<Rightarrow> Some s | Some b \<Rightarrow> release s b);
     _ \<leftarrow> get_handle s1 this;
     Some (set_handle this nullh s1)
   }"

text \<open>\<^verbatim>\<open>SharedPtr& operator=(const SharedPtr& other) noexcept\<close>\<close>

definition copy_assign :: "'v state \<Rightarrow> hloc \<Rightarrow> hloc \<Rightarrow> 'v state option" where
  "copy_assign s this other =
     (if this \<noteq> other then do {
        s1 \<leftarrow> Reset s this;
        src' \<leftarrow> get_handle s1 other;
        share (set_handle this \<lparr>ptr = ptr src', block = block src'\<rparr> s1) (block src')
      } else do { _ \<leftarrow> get_handle s this; Some s })"

text \<open>\<^verbatim>\<open>SharedPtr& operator=(SharedPtr&& other) noexcept\<close>\<close>

definition move_assign :: "'v state \<Rightarrow> hloc \<Rightarrow> hloc \<Rightarrow> 'v state option" where
  "move_assign s this other =
     (if this \<noteq> other then do {
        s1 \<leftarrow> Reset s this;
        src' \<leftarrow> get_handle s1 other;
        Some (set_handle other nullh (set_handle this \<lparr>ptr = ptr src', block = block src'\<rparr> s1))
      } else do { _ \<leftarrow> get_handle s this; Some s })"

text \<open>\<^verbatim>\<open>template <typename Y> SharedPtr& operator=(const SharedPtr<Y>& other) noexcept\<close>\<close>

definition copy_assign_conv :: "'v state \<Rightarrow> hloc \<Rightarrow> hloc \<Rightarrow> 'v state option" where
  "copy_assign_conv s this other = do {
     h \<leftarrow> get_handle s this;
     src \<leftarrow> get_handle s other;
     if block h \<noteq> block src \<or> ptr h \<noteq> ptr src then do {
       s1 \<leftarrow> Reset s this;
       src' \<leftarrow> get_handle s1 other;
       share (set_handle this \<lparr>ptr = ptr src', block = block src'\<rparr> s1) (block src')
     } else Some s
   }"

text \<open>\<^verbatim>\<open>template <typename Y> SharedPtr& operator=(SharedPtr<Y>&& other) noexcept\<close>\<close>

definition move_assign_conv :: "'v state \<Rightarrow> hloc \<Rightarrow> hloc \<Rightarrow> 'v state option" where
  "move_assign_conv s this other = do {
     h \<leftarrow> get_handle s this;
     src \<leftarrow> get_handle s other;
     if block h \<noteq> block src \<or> ptr h \<noteq> ptr src then do {
       s1 \<leftarrow> Reset s this;
       src' \<leftarrow> get_handle s1 other;
       Some (set_handle other nullh (set_handle this \<lparr>ptr = ptr src', block = block src'\<rparr> s1))
     } else Some s
   }"

text \<open>
  \<^verbatim>\<open>EnableSharedFromThis::InternalSetWeakThis\<close> is \<^verbatim>\<open>weak_this_ = sp\<close>, that is
  \<^verbatim>\<open>Weak::operator=\<close>, that is \<^verbatim>\<open>ptr_ = sp\<close>: the copy assignment above on the member of
  the pointee.
\<close>

definition InternalSetWeakThis :: "'v state \<Rightarrow> addr \<Rightarrow> hloc \<Rightarrow> 'v state option" where
  "InternalSetWeakThis s a sp = copy_assign s (Weak a) sp"

text \<open>
  \<^verbatim>\<open>MakeEnableSharedFromThis(Y* p)\<close>.  The test of \<^verbatim>\<open>if constexpr\<close> is on the static
  type \<^verbatim>\<open>Y\<close> of the pointer: the flag \<open>esft\<close> says whether \<^verbatim>\<open>Y\<close> derives from
  \<^verbatim>\<open>EnableSharedFromThis<Y>\<close>.  A class that derives from \<^verbatim>\<open>EnableSharedFromThis<X>\<close> for
  another \<^verbatim>\<open>X\<close> only (it inherits the capability through a base class \<^verbatim>\<open>X\<close>), or a
  pointer to a base class without the capability, has the flag \<open>False\<close>, also when
  the pointee has the member.
\<close>

definition MakeEnableSharedFromThis :: "'v state \<Rightarrow> hloc \<Rightarrow> addr option \<Rightarrow> bool \<Rightarrow> 'v state option" where
  "MakeEnableSharedFromThis s this p esft =
     (if esft then (case p of None \<Rightarrow> Some s | Some a \<Rightarrow> InternalSetWeakThis s a this)
      else Some s)"

text \<open>\<^verbatim>\<open>new ControlBlock<U>(p)\<close>: the address of the block and the state after.\<close>

definition new_ControlBlock :: "'v state \<Rightarrow> addr option \<Rightarrow> addr \<times> 'v state" where
  "new_ControlBlock s p =
     (let b = next_addr s
      in (b, log [Alloc b]
               (s\<lparr>blocks := fmupd b \<lparr>cnt = 1, variant = ControlBlock p\<rparr> (blocks s),
                  next_addr := Suc b\<rparr>)))"

definition unused :: "'v state \<Rightarrow> nat \<Rightarrow> bool" where
  "unused s n = (fmlookup (handles s) n = None)"

text \<open>\<^verbatim>\<open>SharedPtr() noexcept\<close> and \<^verbatim>\<open>SharedPtr(std::nullptr_t) noexcept\<close>\<close>

definition SharedPtr_default :: "'v state \<Rightarrow> nat \<Rightarrow> 'v state option" where
  "SharedPtr_default s n =
     (if unused s n then Some (set_handle (Var n) \<lparr>ptr = None, block = None\<rparr> s) else None)"

definition SharedPtr_nullptr :: "'v state \<Rightarrow> nat \<Rightarrow> 'v state option" where
  "SharedPtr_nullptr s n = SharedPtr_default s n"

text \<open>\<^verbatim>\<open>template <typename U> explicit SharedPtr(U* p)\<close>\<close>

definition SharedPtr_ptr :: "'v state \<Rightarrow> nat \<Rightarrow> addr option \<Rightarrow> bool \<Rightarrow> 'v state option" where
  "SharedPtr_ptr s n p esft =
     (if unused s n then
        (case p of
           None \<Rightarrow> Some (set_handle (Var n) \<lparr>ptr = p, block = None\<rparr> s)
         | Some a \<Rightarrow>
             let (b, s1) = new_ControlBlock s p;
                 s2 = set_handle (Var n) \<lparr>ptr = p, block = Some b\<rparr> s1
             in MakeEnableSharedFromThis s2 (Var n) p esft)
      else None)"

text \<open>\<^verbatim>\<open>SharedPtr(const SharedPtr& other) noexcept\<close>\<close>

definition SharedPtr_copy :: "'v state \<Rightarrow> nat \<Rightarrow> hloc \<Rightarrow> 'v state option" where
  "SharedPtr_copy s n other =
     (if unused s n then do {
        src \<leftarrow> get_handle s other;
        share (set_handle (Var n) \<lparr>ptr = ptr src, block = block src\<rparr> s) (block src)
      } else None)"

text \<open>\<^verbatim>\<open>SharedPtr(SharedPtr&& other) noexcept\<close>\<close>

definition SharedPtr_move :: "'v state \<Rightarrow> nat \<Rightarrow> hloc \<Rightarrow> 'v state option" where
  "SharedPtr_move s n other =
     (if unused s n then do {
        src \<leftarrow> get_handle s other;
        Some (set_handle other nullh (set_handle (Var n) \<lparr>ptr = ptr src, block = block src\<rparr> s))
      } else None)"

text \<open>\<^verbatim>\<open>template <typename Y> SharedPtr(const SharedPtr<Y>& other) noexcept\<close>\<close>

definition SharedPtr_copy_conv :: "'v state \<Rightarrow> nat \<Rightarrow> hloc \<Rightarrow> 'v state option" where
  "SharedPtr_copy_conv s n other =
     (if unused s n then do {
        src \<leftarrow> get_handle s other;
        share (set_handle (Var n) \<lparr>ptr = ptr src, block = block src\<rparr> s) (block src)
      } else None)"

text \<open>\<^verbatim>\<open>template <typename Y> SharedPtr(SharedPtr<Y>&& other) noexcept\<close>\<close>

definition SharedPtr_move_conv :: "'v state \<Rightarrow> nat \<Rightarrow> hloc \<Rightarrow> 'v state option" where
  "SharedPtr_move_conv s n other =
     (if unused s n then do {
        src \<leftarrow> get_handle s other;
        Some (set_handle other nullh (set_handle (Var n) \<lparr>ptr = ptr src, block = block src\<rparr> s))
      } else None)"

text \<open>\<^verbatim>\<open>template <typename Y> SharedPtr(const SharedPtr<Y>& other, T* ptr) noexcept\<close>\<close>

definition SharedPtr_alias :: "'v state \<Rightarrow> nat \<Rightarrow> hloc \<Rightarrow> addr option \<Rightarrow> 'v state option" where
  "SharedPtr_alias s n other p =
     (if unused s n then do {
        src \<leftarrow> get_handle s other;
        share (set_handle (Var n) \<lparr>ptr = p, block = block src\<rparr> s) (block src)
      } else None)"

text \<open>\<^verbatim>\<open>~SharedPtr()\<close>: \<^verbatim>\<open>Reset()\<close>, then the variable is gone.\<close>

definition SharedPtr_dtor :: "'v state \<Rightarrow> nat \<Rightarrow> 'v state option" where
  "SharedPtr_dtor s n = do {
     s1 \<leftarrow> Reset s (Var n);
     Some (s1\<lparr>handles := fmdrop n (handles s1)\<rparr>)
   }"

text \<open>\<^verbatim>\<open>template <typename U> void Reset(U* p)\<close>\<close>

definition Reset_ptr :: "'v state \<Rightarrow> hloc \<Rightarrow> addr option \<Rightarrow> bool \<Rightarrow> 'v state option" where
  "Reset_ptr s this p esft = do {
     h \<leftarrow> get_handle s this;
     if ptr h \<noteq> p then do {
       s1 \<leftarrow> Reset s this;
       let (b, s2) = new_ControlBlock s1 p;
           s3 = set_handle this \<lparr>ptr = p, block = Some b\<rparr> s2
       in MakeEnableSharedFromThis s3 this p esft
     } else Some s
   }"

text \<open>\<^verbatim>\<open>void Swap(SharedPtr& other) noexcept\<close>\<close>

definition Swap :: "'v state \<Rightarrow> hloc \<Rightarrow> hloc \<Rightarrow> 'v state option" where
  "Swap s this other = do {
     h \<leftarrow> get_handle s this;
     src \<leftarrow> get_handle s other;
     Some (set_handle other \<lparr>ptr = ptr h, block = block h\<rparr>
            (set_handle this \<lparr>ptr = ptr src, block = block src\<rparr> s))
   }"

text \<open>\<^verbatim>\<open>Get\<close>, \<^verbatim>\<open>UseCount\<close>, \<^verbatim>\<open>operator bool\<close> and \<^verbatim>\<open>operator==\<close>, on the value of a handle.\<close>

definition Get :: "SharedPtr \<Rightarrow> addr option" where
  "Get h = ptr h"

definition UseCount :: "'v state \<Rightarrow> SharedPtr \<Rightarrow> 64 word option" where
  "UseCount s h =
     (case block h of
        None \<Rightarrow> Some 0
      | Some b \<Rightarrow> (case fmlookup (blocks s) b of None \<Rightarrow> None | Some B \<Rightarrow> Some (cnt B)))"

definition to_bool :: "SharedPtr \<Rightarrow> bool" where
  "to_bool h = (ptr h \<noteq> None)"

definition op_eq :: "SharedPtr \<Rightarrow> SharedPtr \<Rightarrow> bool" where
  "op_eq left right = (Get left = Get right)"

section \<open>\<^verbatim>\<open>MakeShared\<close> and \<^verbatim>\<open>EnableSharedFromThis\<close>\<close>

text \<open>
  A call that returns, or that leaves by an exception, with the state after it.
\<close>

datatype 'a outcome = Returns 'a | Throws 'a

fun after :: "'a outcome \<Rightarrow> 'a" where
  "after (Returns s) = s"
| "after (Throws s) = s"

text \<open>
  \<^verbatim>\<open>MakeShared<T>(args...)\<close>: \<^verbatim>\<open>new Control(args...)\<close> is one allocation, at the next
  unused address; the storage of the value lies inside it and is named by the address
  after.  The constructor of \<^verbatim>\<open>Control\<close> runs the constructor of \<^verbatim>\<open>T\<close> on the arguments
  in the storage: \<open>ctor args\<close> is the value it builds, or \<open>None\<close> when it throws.  Then
  the \<^verbatim>\<open>new\<close> expression frees the allocation, the exception leaves \<^verbatim>\<open>MakeShared\<close> and
  there is no handle.  The local \<^verbatim>\<open>sp\<close> is the returned handle (the \<^verbatim>\<open>return\<close> moves
  or elides).  The flag \<open>cap\<close> says whether \<^verbatim>\<open>T\<close> has the member \<^verbatim>\<open>weak_this_\<close>, the
  flag \<open>esft\<close> whether \<^verbatim>\<open>T\<close> derives from \<^verbatim>\<open>EnableSharedFromThis<T>\<close>.
\<close>

definition MakeShared ::
  "'v state \<Rightarrow> nat \<Rightarrow> ('a \<Rightarrow> 'v option) \<Rightarrow> 'a \<Rightarrow> bool \<Rightarrow> bool \<Rightarrow> 'v state outcome option" where
  "MakeShared s n ctor args cap esft =
     (if unused s n then
        let b = next_addr s;
            a = Suc b
        in (case ctor args of
              None \<Rightarrow> Some (Throws (log [Alloc b, Dealloc b] (s\<lparr>next_addr := Suc (Suc b)\<rparr>)))
            | Some v \<Rightarrow>
                let ob = \<lparr>val = v, weak_this = (if cap then Some nullh else None)\<rparr>;
                    s1 = log [Alloc b, Construct a]
                           (s\<lparr>blocks := fmupd b \<lparr>cnt = 1, variant = Control a\<rparr> (blocks s),
                              objs := fmupd a ob (objs s),
                              next_addr := Suc (Suc b)\<rparr>);
                    s2 = set_handle (Var n) \<lparr>ptr = None, block = None\<rparr> s1;
                    s3 = set_handle (Var n) \<lparr>ptr = Some a, block = Some b\<rparr> s2
                in map_option Returns (MakeEnableSharedFromThis s3 (Var n) (Some a) esft))
      else None)"

text \<open>
  \<^verbatim>\<open>SharedFromThis()\<close> on the pointee at \<open>a\<close>: \<^verbatim>\<open>weak_this_.Lock()\<close> returns a copy of the
  member, which initialises the variable \<open>n\<close> of the caller.
\<close>

definition Lock :: "'v state \<Rightarrow> nat \<Rightarrow> addr \<Rightarrow> 'v state option" where
  "Lock s n a = SharedPtr_copy s n (Weak a)"

definition SharedFromThis :: "'v state \<Rightarrow> nat \<Rightarrow> addr \<Rightarrow> 'v state option" where
  "SharedFromThis s n a = Lock s n a"

text \<open>
  The client's \<^verbatim>\<open>new U(...)\<close>, which yields the raw pointers that are wrapped: a pointee
  with value \<open>v\<close> at the next unused address, built by a constructor of \<^verbatim>\<open>U\<close> other
  than its copy and move constructors.  The flag \<open>cap\<close> says whether \<^verbatim>\<open>U\<close> has the
  member \<^verbatim>\<open>weak_this_\<close>, which is then empty.
\<close>

definition client_new :: "'v state \<Rightarrow> 'v \<Rightarrow> bool \<Rightarrow> 'v state" where
  "client_new s v cap =
     s\<lparr>objs := fmupd (next_addr s) \<lparr>val = v, weak_this = (if cap then Some nullh else None)\<rparr> (objs s),
       next_addr := Suc (next_addr s)\<rparr>"

section \<open>Client programs\<close>

text \<open>
  The calls of the library: a list of statements over handle variables.  For the members
  that take another handle, the second number names the variable passed as \<^verbatim>\<open>other\<close>.
  \<open>Make n r cap esft\<close> is \<^verbatim>\<open>MakeShared\<close> with a constructor that builds \<open>r\<close> (\<open>None\<close>: it
  throws, and the client catches the exception).
\<close>

datatype 'v stmt =
    New 'v bool
  | Default nat
  | Nullptr nat
  | Wrap nat "addr option" bool
  | Copy nat nat
  | Move nat nat
  | CopyConv nat nat
  | MoveConv nat nat
  | Alias nat nat "addr option"
  | Assign nat nat
  | MoveAssign nat nat
  | AssignConv nat nat
  | MoveAssignConv nat nat
  | ResetNone nat
  | ResetPtr nat "addr option" bool
  | SwapWith nat nat
  | Destruct nat
  | Make nat "'v option" bool bool
  | FromThis nat addr

fun step :: "'v state \<Rightarrow> 'v stmt \<Rightarrow> 'v state option" where
  "step s (New v cap) = Some (client_new s v cap)"
| "step s (Default n) = SharedPtr_default s n"
| "step s (Nullptr n) = SharedPtr_nullptr s n"
| "step s (Wrap n p esft) = SharedPtr_ptr s n p esft"
| "step s (Copy n m) = SharedPtr_copy s n (Var m)"
| "step s (Move n m) = SharedPtr_move s n (Var m)"
| "step s (CopyConv n m) = SharedPtr_copy_conv s n (Var m)"
| "step s (MoveConv n m) = SharedPtr_move_conv s n (Var m)"
| "step s (Alias n m p) = SharedPtr_alias s n (Var m) p"
| "step s (Assign n m) = copy_assign s (Var n) (Var m)"
| "step s (MoveAssign n m) = move_assign s (Var n) (Var m)"
| "step s (AssignConv n m) = copy_assign_conv s (Var n) (Var m)"
| "step s (MoveAssignConv n m) = move_assign_conv s (Var n) (Var m)"
| "step s (ResetNone n) = Reset s (Var n)"
| "step s (ResetPtr n p esft) = Reset_ptr s (Var n) p esft"
| "step s (SwapWith n m) = Swap s (Var n) (Var m)"
| "step s (Destruct n) = SharedPtr_dtor s n"
| "step s (Make n r cap esft) = map_option after (MakeShared s n (\<lambda>x. x) r cap esft)"
| "step s (FromThis n a) = SharedFromThis s n a"

text \<open>
  What the library asks of its client.  A raw pointer handed to a handle is null or
  points to a live object that no control block owns yet.  A handle occupies sixteen
  bytes of a 64-bit address space, so the variables are numbered below \<open>2 ^ 60\<close>.
\<close>

definition max_handles :: nat where
  "max_handles = 2 ^ 60"

definition owned :: "'v state \<Rightarrow> addr \<Rightarrow> bool" where
  "owned s a = (\<not> fmpred (\<lambda>b B. pointee (variant B) \<noteq> Some a) (blocks s))"

definition raw_ok :: "'v state \<Rightarrow> addr option \<Rightarrow> bool" where
  "raw_ok s p = (case p of None \<Rightarrow> True | Some a \<Rightarrow> fmlookup (objs s) a \<noteq> None \<and> \<not> owned s a)"

fun creates :: "'v stmt \<Rightarrow> nat option" where
  "creates (Default n) = Some n"
| "creates (Nullptr n) = Some n"
| "creates (Wrap n p esft) = Some n"
| "creates (Copy n m) = Some n"
| "creates (Move n m) = Some n"
| "creates (CopyConv n m) = Some n"
| "creates (MoveConv n m) = Some n"
| "creates (Alias n m p) = Some n"
| "creates (Make n r cap esft) = Some n"
| "creates (FromThis n a) = Some n"
| "creates _ = None"

fun raw_pre :: "'v state \<Rightarrow> 'v stmt \<Rightarrow> bool" where
  "raw_pre s (Wrap n p esft) = raw_ok s p"
| "raw_pre s (ResetPtr n p esft) =
     (case fmlookup (handles s) n of None \<Rightarrow> False | Some h \<Rightarrow> ptr h = p \<or> raw_ok s p)"
| "raw_pre s _ = True"

definition pre :: "'v state \<Rightarrow> 'v stmt \<Rightarrow> bool" where
  "pre s c = ((case creates c of None \<Rightarrow> True | Some n \<Rightarrow> n < max_handles) \<and> raw_pre s c)"

fun exec :: "'v state \<Rightarrow> 'v stmt list \<Rightarrow> 'v state option" where
  "exec s [] = Some s"
| "exec s (c # cs) =
     (if pre s c then (case step s c of None \<Rightarrow> None | Some s' \<Rightarrow> exec s' cs) else None)"

section \<open>Observations and invariants\<close>

text \<open>\<^verbatim>\<open>UseCount()\<close> and \<^verbatim>\<open>Get()\<close> called on the handle at a location.\<close>

definition UseCount_at :: "'v state \<Rightarrow> hloc \<Rightarrow> 64 word option" where
  "UseCount_at s l = (case get_handle s l of None \<Rightarrow> None | Some h \<Rightarrow> UseCount s h)"

definition Get_at :: "'v state \<Rightarrow> hloc \<Rightarrow> addr option option" where
  "Get_at s l = (case get_handle s l of None \<Rightarrow> None | Some h \<Rightarrow> Some (Get h))"

text \<open>
  The live handles that hold the block \<open>b\<close>: variables of the client and members
  \<^verbatim>\<open>weak_this_\<close> of live pointees.  A moved-from or reset handle holds no block.
\<close>

definition holders :: "'v state \<Rightarrow> addr \<Rightarrow> hloc set" where
  "holders s b = {l. \<exists>h. get_handle s l = Some h \<and> block h = Some b}"

text \<open>No handle holds a block that is not allocated.\<close>

definition no_dangling :: "'v state \<Rightarrow> bool" where
  "no_dangling s =
     (\<forall>l h b. get_handle s l = Some h \<longrightarrow> block h = Some b \<longrightarrow> fmlookup (blocks s) b \<noteq> None)"

text \<open>The count of every allocated block is the number of its holders, and is not zero.\<close>

definition counted :: "'v state \<Rightarrow> bool" where
  "counted s =
     (\<forall>b B. fmlookup (blocks s) b = Some B \<longrightarrow>
        unat (cnt B) = card (holders s b) \<and> 0 < card (holders s b))"

text \<open>What an allocated block destroys (\<open>Some None\<close>: a block for a null pointer).\<close>

definition pointee_at :: "'v state \<Rightarrow> addr \<Rightarrow> addr option option" where
  "pointee_at s b = map_option (\<lambda>B. pointee (variant B)) (fmlookup (blocks s) b)"

text \<open>The pointee of an allocated block is live, and no two blocks have the same pointee.\<close>

definition owns_live :: "'v state \<Rightarrow> bool" where
  "owns_live s =
     (\<forall>b B a. fmlookup (blocks s) b = Some B \<longrightarrow> pointee (variant B) = Some a \<longrightarrow>
        fmlookup (objs s) a \<noteq> None)"

definition one_owner :: "'v state \<Rightarrow> bool" where
  "one_owner s =
     (\<forall>b B b' B' a. fmlookup (blocks s) b = Some B \<longrightarrow> fmlookup (blocks s) b' = Some B' \<longrightarrow>
        pointee (variant B) = Some a \<longrightarrow> pointee (variant B') = Some a \<longrightarrow> b = b')"

text \<open>A member \<^verbatim>\<open>weak_this_\<close> that holds a block holds the block of its own pointee.\<close>

definition backlinks :: "'v state \<Rightarrow> bool" where
  "backlinks s =
     (\<forall>a ob w b. fmlookup (objs s) a = Some ob \<longrightarrow> weak_this ob = Some w \<longrightarrow> block w = Some b \<longrightarrow>
        (\<exists>B. fmlookup (blocks s) b = Some B \<and> pointee (variant B) = Some a))"

definition bounded :: "'v state \<Rightarrow> bool" where
  "bounded s = (\<forall>n. fmlookup (handles s) n \<noteq> None \<longrightarrow> n < max_handles)"

text \<open>
  Every address in use or in the trace is below the next unused one, and no address
  is a block and a pointee at once.
\<close>

definition allocated :: "'v state \<Rightarrow> bool" where
  "allocated s =
     (\<forall>a. (fmlookup (blocks s) a \<noteq> None \<or> fmlookup (objs s) a \<noteq> None \<or>
           Destroy a \<in> set (trace s) \<or> Dealloc a \<in> set (trace s)) \<longrightarrow> a < next_addr s)"

definition apart :: "'v state \<Rightarrow> bool" where
  "apart s = (\<forall>a. fmlookup (blocks s) a \<noteq> None \<longrightarrow> fmlookup (objs s) a = None)"

text \<open>
  No pointee is destroyed twice and no address is freed twice; what is live has been
  neither destroyed nor freed.
\<close>

definition once :: "'v state \<Rightarrow> bool" where
  "once s =
     (\<forall>a. count_list (trace s) (Destroy a) \<le> 1 \<and> count_list (trace s) (Dealloc a) \<le> 1 \<and>
          (fmlookup (objs s) a \<noteq> None \<longrightarrow> Destroy a \<notin> set (trace s) \<and> Dealloc a \<notin> set (trace s)) \<and>
          (fmlookup (blocks s) a \<noteq> None \<longrightarrow> Dealloc a \<notin> set (trace s)))"

definition wf_state :: "'v state \<Rightarrow> bool" where
  "wf_state s =
     (no_dangling s \<and> counted s \<and> owns_live s \<and> one_owner s \<and> backlinks s \<and> bounded s \<and>
      allocated s \<and> apart s \<and> once s)"

text \<open>
  What a statement leaves alone: a pointee whose \<^verbatim>\<open>weak_this_\<close> holds a block stays as
  it is, and a \<^verbatim>\<open>weak_this_\<close> that comes to hold a block views its own pointee.
\<close>

definition keeps :: "'v state \<Rightarrow> 'v state \<Rightarrow> bool" where
  "keeps s s' =
     ((\<forall>a ob w b. fmlookup (objs s) a = Some ob \<longrightarrow> weak_this ob = Some w \<longrightarrow> block w = Some b \<longrightarrow>
          fmlookup (objs s') a = Some ob) \<and>
      (\<forall>a w b. get_handle s' (Weak a) = Some w \<longrightarrow> block w = Some b \<longrightarrow>
          ptr w = Some a \<or> get_handle s (Weak a) = Some w))"

text \<open>
  A handle without a block has a null view.  The aliasing constructor stores the view it
  is given beside the block of its source, so the programs that keep this are those
  whose aliasing constructions have a null view or a source with a block.
\<close>

definition handle_inv :: "'v state \<Rightarrow> bool" where
  "handle_inv s = (\<forall>l h. get_handle s l = Some h \<longrightarrow> block h = None \<longrightarrow> ptr h = None)"

fun alias_guard :: "'v state \<Rightarrow> 'v stmt \<Rightarrow> bool" where
  "alias_guard s (Alias n m p) =
     (p = None \<or> (case fmlookup (handles s) m of None \<Rightarrow> True | Some h \<Rightarrow> block h \<noteq> None))"
| "alias_guard s _ = True"

fun guarded :: "'v state \<Rightarrow> 'v stmt list \<Rightarrow> bool" where
  "guarded s [] = True"
| "guarded s (c # cs) =
     (alias_guard s c \<and> (case step s c of None \<Rightarrow> True | Some s' \<Rightarrow> guarded s' cs))"

text \<open>
  The member \<^verbatim>\<open>weak_this_\<close> of the pointee at \<open>a\<close> holds a block, and the statements that
  bind a pointee to an owning handle through a pointer type with the capability.
\<close>

definition bound_to :: "'v state \<Rightarrow> addr \<Rightarrow> bool" where
  "bound_to s a = (case get_handle s (Weak a) of None \<Rightarrow> False | Some w \<Rightarrow> block w \<noteq> None)"

fun binds :: "'v state \<Rightarrow> 'v stmt \<Rightarrow> addr \<Rightarrow> bool" where
  "binds s (Wrap n p esft) a = (esft \<and> p = Some a)"
| "binds s (ResetPtr n p esft) a =
     (esft \<and> p = Some a \<and>
      (case fmlookup (handles s) n of None \<Rightarrow> False | Some h \<Rightarrow> ptr h \<noteq> p))"
| "binds s (Make n r cap esft) a = (esft \<and> r \<noteq> None \<and> a = Suc (next_addr s))"
| "binds s _ a = False"

section \<open>The implicit special members of a pointee\<close>

text \<open>
  \<^verbatim>\<open>EnableSharedFromThis\<close> and its member \<^verbatim>\<open>Weak\<close> declare no copy constructor, no move
  constructor, no copy or move assignment and no destructor, so a class with the
  capability has the implicit ones, which run the corresponding members of
  \<^verbatim>\<open>SharedPtr\<close> on \<^verbatim>\<open>weak_this_.ptr_\<close>.  The value of the pointee goes along.
\<close>

text \<open>
  \<^verbatim>\<open>T(const T&)\<close>, as in \<^verbatim>\<open>new T(*a)\<close>: a pointee at the next unused address, whose member is
  built by \<^verbatim>\<open>SharedPtr(const SharedPtr& other)\<close> from the member of the pointee at \<open>a\<close>.
\<close>

definition pointee_copy :: "'v state \<Rightarrow> addr \<Rightarrow> 'v state option" where
  "pointee_copy s a =
     (case fmlookup (objs s) a of
        None \<Rightarrow> None
      | Some ob \<Rightarrow>
          let c = next_addr s
          in (case weak_this ob of
                None \<Rightarrow>
                  Some (s\<lparr>objs := fmupd c \<lparr>val = val ob, weak_this = None\<rparr> (objs s), next_addr := Suc c\<rparr>)
              | Some w \<Rightarrow>
                  share (s\<lparr>objs := fmupd c \<lparr>val = val ob, weak_this = Some \<lparr>ptr = ptr w, block = block w\<rparr>\<rparr> (objs s),
                           next_addr := Suc c\<rparr>)
                    (block w)))"

text \<open>
  \<^verbatim>\<open>T(T&&)\<close>, as in \<^verbatim>\<open>new T(std::move(*a))\<close>: the member is built by
  \<^verbatim>\<open>SharedPtr(SharedPtr&& other)\<close>, which empties the member of the pointee at \<open>a\<close>.
\<close>

definition pointee_move :: "'v state \<Rightarrow> addr \<Rightarrow> 'v state option" where
  "pointee_move s a =
     (case fmlookup (objs s) a of
        None \<Rightarrow> None
      | Some ob \<Rightarrow>
          let c = next_addr s
          in (case weak_this ob of
                None \<Rightarrow>
                  Some (s\<lparr>objs := fmupd c \<lparr>val = val ob, weak_this = None\<rparr> (objs s), next_addr := Suc c\<rparr>)
              | Some w \<Rightarrow>
                  Some (set_handle (Weak a) nullh
                    (s\<lparr>objs := fmupd c \<lparr>val = val ob, weak_this = Some \<lparr>ptr = ptr w, block = block w\<rparr>\<rparr> (objs s),
                       next_addr := Suc c\<rparr>))))"

text \<open>
  \<^verbatim>\<open>*a = *c\<close>: the implicit \<^verbatim>\<open>T& operator=(const T&)\<close> assigns the base
  \<^verbatim>\<open>EnableSharedFromThis\<close> first, by \<^verbatim>\<open>SharedPtr::operator=(const SharedPtr&)\<close> on the
  members, and then the value.
\<close>

definition pointee_assign :: "'v state \<Rightarrow> addr \<Rightarrow> addr \<Rightarrow> 'v state option" where
  "pointee_assign s a c =
     (case fmlookup (objs s) a of
        None \<Rightarrow> None
      | Some oa \<Rightarrow> do {
          s1 \<leftarrow> (case weak_this oa of None \<Rightarrow> Some s | Some w \<Rightarrow> copy_assign s (Weak a) (Weak c));
          oa1 \<leftarrow> fmlookup (objs s1) a;
          oc1 \<leftarrow> fmlookup (objs s1) c;
          Some (s1\<lparr>objs := fmupd a (oa1\<lparr>val := val oc1\<rparr>) (objs s1)\<rparr>)
        })"

text \<open>\<^verbatim>\<open>*a = std::move(*c)\<close>: the same with \<^verbatim>\<open>SharedPtr::operator=(SharedPtr&&)\<close>.\<close>

definition pointee_move_assign :: "'v state \<Rightarrow> addr \<Rightarrow> addr \<Rightarrow> 'v state option" where
  "pointee_move_assign s a c =
     (case fmlookup (objs s) a of
        None \<Rightarrow> None
      | Some oa \<Rightarrow> do {
          s1 \<leftarrow> (case weak_this oa of None \<Rightarrow> Some s | Some w \<Rightarrow> move_assign s (Weak a) (Weak c));
          oa1 \<leftarrow> fmlookup (objs s1) a;
          oc1 \<leftarrow> fmlookup (objs s1) c;
          Some (s1\<lparr>objs := fmupd a (oa1\<lparr>val := val oc1\<rparr>) (objs s1)\<rparr>)
        })"

text \<open>
  The destructor of a pointee run by the client (\<^verbatim>\<open>delete a\<close>, or the end of the scope
  of a copy): the object is gone and its member \<^verbatim>\<open>weak_this_\<close> is destroyed, that is,
  \<^verbatim>\<open>Reset()\<close> runs on it, as in \<^verbatim>\<open>DeleteObject\<close> above.
\<close>

definition pointee_delete :: "'v state \<Rightarrow> addr \<Rightarrow> 'v state option" where
  "pointee_delete s a =
     (case fmlookup (objs s) a of
        None \<Rightarrow> None
      | Some ob \<Rightarrow>
          let s2 = s\<lparr>objs := fmdrop a (objs s)\<rparr>
          in (case weak_this ob of
                None \<Rightarrow> Some s2
              | Some w \<Rightarrow> (case block w of None \<Rightarrow> Some s2 | Some b' \<Rightarrow> release s2 b')))"

text \<open>
  A client program: calls of the library and these operations on pointees.  The client
  deletes only pointees that no control block owns.  The pointees it copies, moves or
  assigns sit, as the variables, at addresses below \<open>2 ^ 60\<close>.
\<close>

datatype 'v cstmt =
    Lib "'v stmt"
  | CopyPointee addr
  | MovePointee addr
  | AssignPointee addr addr
  | MoveAssignPointee addr addr
  | DeletePointee addr

fun cstep :: "'v state \<Rightarrow> 'v cstmt \<Rightarrow> 'v state option" where
  "cstep s (Lib c) = step s c"
| "cstep s (CopyPointee a) = pointee_copy s a"
| "cstep s (MovePointee a) = pointee_move s a"
| "cstep s (AssignPointee a c) = pointee_assign s a c"
| "cstep s (MoveAssignPointee a c) = pointee_move_assign s a c"
| "cstep s (DeletePointee a) = pointee_delete s a"

fun cpre :: "'v state \<Rightarrow> 'v cstmt \<Rightarrow> bool" where
  "cpre s (Lib c) = pre s c"
| "cpre s (CopyPointee a) = (next_addr s < max_handles)"
| "cpre s (MovePointee a) = (next_addr s < max_handles)"
| "cpre s (AssignPointee a c) = (a < max_handles)"
| "cpre s (MoveAssignPointee a c) = (a < max_handles)"
| "cpre s (DeletePointee a) = (\<not> owned s a)"

fun cexec :: "'v state \<Rightarrow> 'v cstmt list \<Rightarrow> 'v state option" where
  "cexec s [] = Some s"
| "cexec s (c # cs) =
     (if cpre s c then (case cstep s c of None \<Rightarrow> None | Some s' \<Rightarrow> cexec s' cs) else None)"

text \<open>
  The invariant of these programs.  A member \<^verbatim>\<open>weak_this_\<close> may hold the block of another
  pointee, of which its own pointee is a copy; such pointees sit below \<open>2 ^ 60\<close>.
\<close>

definition few_weak :: "'v state \<Rightarrow> bool" where
  "few_weak s =
     (\<forall>a b. Weak a \<in> holders s b \<longrightarrow> a < max_handles \<or> pointee_at s b = Some (Some a))"

definition xwf :: "'v state \<Rightarrow> bool" where
  "xwf s =
     (no_dangling s \<and> counted s \<and> owns_live s \<and> one_owner s \<and> few_weak s \<and> bounded s \<and>
      allocated s \<and> apart s \<and> once s)"

text \<open>
  The invariant inside \<^verbatim>\<open>Reset()\<close>.  The blocks in \<open>Z\<close> have reached the count zero and
  are being deleted: their pointee is destroyed and nothing holds them.  A block in \<open>D\<close>
  has lost a holder and not been decremented yet.  The handles at the locations in \<open>L\<close>
  are being reset, and are not counted.
\<close>

definition ginv :: "'v state \<Rightarrow> addr set \<Rightarrow> addr set \<Rightarrow> hloc set \<Rightarrow> bool" where
  "ginv s Z D L =
     ((\<forall>b. holders s b - L \<noteq> {} \<longrightarrow> pointee_at s b \<noteq> None \<and> b \<notin> Z) \<and>
      (\<forall>b B. fmlookup (blocks s) b = Some B \<longrightarrow> b \<notin> Z \<longrightarrow>
         unat (cnt B) = card (holders s b - L) + (if b \<in> D then 1 else 0) \<and> 0 < unat (cnt B)) \<and>
      (\<forall>b. b \<in> Z \<or> b \<in> D \<longrightarrow> pointee_at s b \<noteq> None) \<and>
      (\<forall>b. b \<in> Z \<longrightarrow> b \<notin> D) \<and>
      (\<forall>b a. pointee_at s b = Some (Some a) \<longrightarrow> b \<notin> Z \<longrightarrow> fmlookup (objs s) a \<noteq> None) \<and>
      one_owner s \<and>
      (\<forall>a b. Weak a \<in> holders s b \<longrightarrow> Weak a \<notin> L \<longrightarrow>
         a < max_handles \<or> pointee_at s b = Some (Some a)) \<and>
      bounded s \<and> allocated s \<and> apart s \<and> once s)"

text \<open>
  The member \<^verbatim>\<open>weak_this_\<close> of the pointee at \<open>a\<close> views the pointee and holds the block
  \<open>b\<close> that owns it.
\<close>

definition self_held :: "'v state \<Rightarrow> addr \<Rightarrow> addr \<Rightarrow> bool" where
  "self_held s a b =
     (get_handle s (Weak a) = Some \<lparr>ptr = Some a, block = Some b\<rparr> \<and> pointee_at s b = Some (Some a))"

text \<open>
  What a statement leaves alone, \<open>T\<close> being the pointees whose member it may assign: no
  address is used again, a block stays as it is or is freed, another pointee stays as it
  is or is destroyed, and stays when its member holds its own block.
\<close>

definition frame :: "'v state \<Rightarrow> 'v state \<Rightarrow> addr set \<Rightarrow> bool" where
  "frame s s' T =
     (next_addr s \<le> next_addr s' \<and>
      (\<forall>b. b < next_addr s \<longrightarrow> pointee_at s' b = None \<or> pointee_at s' b = pointee_at s b) \<and>
      (\<forall>a. a \<notin> T \<longrightarrow> a < next_addr s \<longrightarrow>
         fmlookup (objs s') a = None \<or> fmlookup (objs s') a = fmlookup (objs s) a) \<and>
      (\<forall>a b. a \<notin> T \<longrightarrow> self_held s a b \<longrightarrow> fmlookup (objs s') a = fmlookup (objs s) a))"

text \<open>The pointee of which a location is the member \<^verbatim>\<open>weak_this_\<close>.\<close>

fun member_of :: "hloc \<Rightarrow> addr set" where
  "member_of (Var n) = {}"
| "member_of (Weak a) = {a}"

text \<open>
  A location that can take a handle: a variable below \<open>2 ^ 60\<close> that does not exist yet
  or holds no block, or the member of a live pointee that holds no block.
\<close>

fun vacant :: "'v state \<Rightarrow> hloc \<Rightarrow> bool" where
  "vacant s (Var n) =
     (n < max_handles \<and> (case fmlookup (handles s) n of None \<Rightarrow> True | Some h \<Rightarrow> block h = None))"
| "vacant s (Weak a) =
     (case get_handle s (Weak a) of None \<Rightarrow> False | Some h \<Rightarrow> block h = None)"

text \<open>The pointees whose member \<^verbatim>\<open>weak_this_\<close> a statement may assign.\<close>

fun targets :: "'v cstmt \<Rightarrow> addr set" where
  "targets (Lib (Wrap n p esft)) = (if esft then set_option p else {})"
| "targets (Lib (ResetPtr n p esft)) = (if esft then set_option p else {})"
| "targets (MovePointee a) = {a}"
| "targets (AssignPointee a c) = {a}"
| "targets (MoveAssignPointee a c) = {a, c}"
| "targets _ = {}"

section \<open>Evaluation\<close>

lemmas member_defs = Reset_def copy_assign_def move_assign_def copy_assign_conv_def
  move_assign_conv_def InternalSetWeakThis_def MakeEnableSharedFromThis_def new_ControlBlock_def
  unused_def SharedPtr_default_def SharedPtr_nullptr_def SharedPtr_ptr_def SharedPtr_copy_def
  SharedPtr_move_def SharedPtr_copy_conv_def SharedPtr_move_conv_def SharedPtr_alias_def
  SharedPtr_dtor_def Reset_ptr_def Swap_def MakeShared_def Lock_def SharedFromThis_def
  client_new_def share_def log_def nullh_def delete_block_def pointee_def destroy_events_def
  pointee_copy_def pointee_move_def pointee_assign_def pointee_move_assign_def pointee_delete_def

lemmas run_defs = member_defs init_state_def pre_def raw_ok_def owned_def max_handles_def
  fmpred_iff UseCount_at_def Get_at_def UseCount_def Get_def release.simps

section \<open>Equality of handles\<close>

text \<open>
  C10.  \<^verbatim>\<open>operator==\<close> on two handles is true exactly when their view pointers
  (\<^verbatim>\<open>Get()\<close>) are equal, whatever their control blocks: two handles with the same view and
  different blocks are equal, and two handles with one block are equal exactly when
  their views are.  In the program below the handles 2 and 3 alias the same address from
  two blocks and are equal; the handles 2 and 4 share a block, have two views and are
  not equal.
\<close>

theorem op_eq_compares_views:
  "(op_eq left right \<longleftrightarrow> Get left = Get right) \<and>
   op_eq (left\<lparr>block := b1\<rparr>) (right\<lparr>block := b2\<rparr>) = op_eq left right \<and>
   op_eq \<lparr>ptr = p, block = b1\<rparr> \<lparr>ptr = p, block = b2\<rparr> \<and>
   op_eq \<lparr>ptr = p, block = b\<rparr> \<lparr>ptr = q, block = b\<rparr> = (p = q) \<and>
   map_option block (get_handle (the (exec (init_state :: nat state)
      [New 5 False, Wrap 0 (Some 0) False, New 6 False, Wrap 1 (Some 2) False,
       Alias 2 0 (Some 9), Alias 3 1 (Some 9), Alias 4 0 (Some 8)])) (Var 2)) = Some (Some 1) \<and>
   map_option block (get_handle (the (exec (init_state :: nat state)
      [New 5 False, Wrap 0 (Some 0) False, New 6 False, Wrap 1 (Some 2) False,
       Alias 2 0 (Some 9), Alias 3 1 (Some 9), Alias 4 0 (Some 8)])) (Var 3)) = Some (Some 3) \<and>
   map_option block (get_handle (the (exec (init_state :: nat state)
      [New 5 False, Wrap 0 (Some 0) False, New 6 False, Wrap 1 (Some 2) False,
       Alias 2 0 (Some 9), Alias 3 1 (Some 9), Alias 4 0 (Some 8)])) (Var 4)) = Some (Some 1) \<and>
   op_eq
     (the (get_handle (the (exec (init_state :: nat state)
      [New 5 False, Wrap 0 (Some 0) False, New 6 False, Wrap 1 (Some 2) False,
       Alias 2 0 (Some 9), Alias 3 1 (Some 9), Alias 4 0 (Some 8)])) (Var 2)))
     (the (get_handle (the (exec (init_state :: nat state)
      [New 5 False, Wrap 0 (Some 0) False, New 6 False, Wrap 1 (Some 2) False,
       Alias 2 0 (Some 9), Alias 3 1 (Some 9), Alias 4 0 (Some 8)])) (Var 3))) \<and>
   \<not> op_eq
     (the (get_handle (the (exec (init_state :: nat state)
      [New 5 False, Wrap 0 (Some 0) False, New 6 False, Wrap 1 (Some 2) False,
       Alias 2 0 (Some 9), Alias 3 1 (Some 9), Alias 4 0 (Some 8)])) (Var 2)))
     (the (get_handle (the (exec (init_state :: nat state)
      [New 5 False, Wrap 0 (Some 0) False, New 6 False, Wrap 1 (Some 2) False,
       Alias 2 0 (Some 9), Alias 3 1 (Some 9), Alias 4 0 (Some 8)])) (Var 4)))"
  by (simp add: run_defs op_eq_def)

section \<open>\<^verbatim>\<open>Reset(U* p)\<close> with a null pointer\<close>

text \<open>
  C4.  The handle \<open>0\<close> wraps a live object; \<^verbatim>\<open>Reset(p)\<close> with a null \<open>p\<close> releases the
  object and then allocates a control block for the null pointer: the handle is left
  with a null view, a block and \<^verbatim>\<open>UseCount() == 1\<close>, where the constructor from a null
  raw pointer gives a handle without a block and \<^verbatim>\<open>UseCount() == 0\<close>.
\<close>

theorem Reset_ptr_null_allocates:
  "get_handle (the (Reset_ptr (the (exec (init_state :: nat state) [New 5 False, Wrap 0 (Some 0) False]))
       (Var 0) None False)) (Var 0) = Some \<lparr>ptr = None, block = Some 2\<rparr> \<and>
   UseCount_at (the (Reset_ptr (the (exec (init_state :: nat state) [New 5 False, Wrap 0 (Some 0) False]))
       (Var 0) None False)) (Var 0) = Some 1 \<and>
   get_handle (the (exec (init_state :: nat state) [New 5 False, Wrap 0 (Some 0) False, ResetNone 0, Wrap 1 None False]))
       (Var 1) = Some \<lparr>ptr = None, block = None\<rparr> \<and>
   UseCount_at (the (exec (init_state :: nat state) [New 5 False, Wrap 0 (Some 0) False, ResetNone 0, Wrap 1 None False]))
       (Var 1) = Some 0"
  by (simp add: run_defs)

section \<open>Holders of a block\<close>

lemma get_handle_blocks_upd [simp]: "get_handle (s\<lparr>blocks := X\<rparr>) l = get_handle s l"
  by (cases l) simp_all

lemma get_handle_trace_upd [simp]: "get_handle (s\<lparr>trace := X\<rparr>) l = get_handle s l"
  by (cases l) simp_all

lemma get_handle_next_addr_upd [simp]: "get_handle (s\<lparr>next_addr := X\<rparr>) l = get_handle s l"
  by (cases l) simp_all

lemma get_handle_handles_upd:
  "get_handle (s\<lparr>handles := H\<rparr>) l = (case l of Var n \<Rightarrow> fmlookup H n | Weak a \<Rightarrow> get_handle s (Weak a))"
  by (cases l) simp_all

lemma get_handle_objs_upd:
  "get_handle (s\<lparr>objs := X\<rparr>) l =
     (case l of Var n \<Rightarrow> get_handle s (Var n)
      | Weak a \<Rightarrow> (case fmlookup X a of None \<Rightarrow> None | Some ob \<Rightarrow> weak_this ob))"
  by (cases l) simp_all

lemma holders_blocks_upd [simp]: "holders (s\<lparr>blocks := X\<rparr>) b = holders s b"
  by (simp add: holders_def)

lemma holders_trace_upd [simp]: "holders (s\<lparr>trace := X\<rparr>) b = holders s b"
  by (simp add: holders_def)

lemma holders_next_addr_upd [simp]: "holders (s\<lparr>next_addr := X\<rparr>) b = holders s b"
  by (simp add: holders_def)

lemma holders_handles_upd:
  "holders (s\<lparr>handles := fmupd n h (handles s)\<rparr>) b =
     (if block h = Some b then insert (Var n) (holders s b) else holders s b - {Var n})"
proof (rule set_eqI)
  fix l show "l \<in> holders (s\<lparr>handles := fmupd n h (handles s)\<rparr>) b \<longleftrightarrow>
    l \<in> (if block h = Some b then insert (Var n) (holders s b) else holders s b - {Var n})"
    by (cases l) (auto simp: holders_def)
qed

lemma holders_handles_drop:
  "holders (s\<lparr>handles := fmdrop n (handles s)\<rparr>) b = holders s b - {Var n}"
proof (rule set_eqI)
  fix l show "l \<in> holders (s\<lparr>handles := fmdrop n (handles s)\<rparr>) b \<longleftrightarrow> l \<in> holders s b - {Var n}"
    by (cases l) (auto simp: holders_def)
qed

lemma holders_objs_upd:
  assumes "objs s = X"
  shows "holders (s\<lparr>objs := fmupd a ob X\<rparr>) b =
     (if \<exists>w. weak_this ob = Some w \<and> block w = Some b then insert (Weak a) (holders s b)
      else holders s b - {Weak a})"
proof (rule set_eqI)
  fix l show "l \<in> holders (s\<lparr>objs := fmupd a ob X\<rparr>) b \<longleftrightarrow>
    l \<in> (if \<exists>w. weak_this ob = Some w \<and> block w = Some b then insert (Weak a) (holders s b)
      else holders s b - {Weak a})"
    using assms by (cases l) (auto simp: holders_def split: option.splits)
qed

lemma holders_objs_drop:
  assumes "objs s = X"
  shows "holders (s\<lparr>objs := fmdrop a X\<rparr>) b = holders s b - {Weak a}"
proof (rule set_eqI)
  fix l show "l \<in> holders (s\<lparr>objs := fmdrop a X\<rparr>) b \<longleftrightarrow> l \<in> holders s b - {Weak a}"
    using assms by (cases l) (auto simp: holders_def split: option.splits)
qed

lemma holders_subset:
  "holders s b \<subseteq> Var ` fmdom' (handles s) \<union> Weak ` fmdom' (objs s)"
proof
  fix l assume "l \<in> holders s b"
  then obtain h where h: "get_handle s l = Some h" by (auto simp: holders_def)
  show "l \<in> Var ` fmdom' (handles s) \<union> Weak ` fmdom' (objs s)"
  proof (cases l)
    case (Var n)
    with h show ?thesis by (auto intro: fmdom'I)
  next
    case (Weak a)
    with h show ?thesis by (auto intro: fmdom'I split: option.splits)
  qed
qed

lemma finite_holders [simp]: "finite (holders s b)"
  by (rule finite_subset [OF holders_subset]) simp

lemma Var_holder: "Var n \<in> holders s b \<longleftrightarrow> (\<exists>h. fmlookup (handles s) n = Some h \<and> block h = Some b)"
  by (simp add: holders_def)

lemma Weak_holder:
  "Weak a \<in> holders s b \<longleftrightarrow> (\<exists>ob w. fmlookup (objs s) a = Some ob \<and> weak_this ob = Some w \<and> block w = Some b)"
  by (auto simp: holders_def split: option.splits)

lemma holders_bound:
  assumes "bounded s" and "backlinks s"
  shows "card (holders s b) \<le> Suc max_handles"
proof -
  let ?W = "{a. \<exists>B. fmlookup (blocks s) b = Some B \<and> pointee (variant B) = Some a}"
  have sub: "holders s b \<subseteq> Var ` {..<max_handles} \<union> Weak ` ?W"
  proof
    fix l assume l: "l \<in> holders s b"
    show "l \<in> Var ` {..<max_handles} \<union> Weak ` ?W"
    proof (cases l)
      case (Var n)
      with l assms(1) show ?thesis by (auto simp: Var_holder bounded_def)
    next
      case (Weak a)
      with l assms(2) show ?thesis by (fastforce simp: Weak_holder backlinks_def)
    qed
  qed
  have W: "?W \<subseteq> {the (pointee (variant (the (fmlookup (blocks s) b))))}"
    by auto
  then have fW: "finite ?W" by (rule finite_subset) simp
  have cW: "card ?W \<le> 1"
    using card_mono [OF _ W] by simp
  have "card (holders s b) \<le> card (Var ` {..<max_handles} \<union> Weak ` ?W)"
    using sub fW by (intro card_mono) auto
  also have "\<dots> \<le> card (Var ` {..<max_handles}) + card (Weak ` ?W)"
    by (rule card_Un_le)
  also have "\<dots> \<le> max_handles + card ?W"
    using card_image_le [of "{..<max_handles}" Var] card_image_le [OF fW, of Weak] by simp
  finally show ?thesis using cW by simp
qed

lemma count_incr:
  fixes c :: "64 word"
  assumes "unat c < Suc max_handles"
  shows "unat (c + 1) = Suc (unat c)"
proof -
  have "unat c + unat (1 :: 64 word) < 2 ^ LENGTH(64)"
    using assms by (simp add: max_handles_def)
  then have "unat (c + 1) = unat c + unat (1 :: 64 word)"
    by (rule unat_add_lem [THEN iffD1])
  then show ?thesis by simp
qed

lemma count_decr:
  fixes c :: "64 word"
  assumes "0 < unat c"
  shows "unat (c - 1) = unat c - 1"
  using assms by (simp add: unat_minus_one unat_gt_0)

lemma count_one: "unat (c :: 64 word) = 1 \<longleftrightarrow> c = 1"
  by (simp add: word_unat_eq_iff)

section \<open>Transitions that keep the invariant\<close>

lemma not_holder:
  assumes "\<forall>h0. get_handle s l = Some h0 \<longrightarrow> block h0 = None"
  shows "l \<notin> holders s b"
  using assms by (auto simp: holders_def)

lemma pointee_at_handles_upd [simp]: "pointee_at (s\<lparr>handles := X\<rparr>) b = pointee_at s b"
  by (simp add: pointee_at_def)

lemma pointee_at_objs_upd [simp]: "pointee_at (s\<lparr>objs := X\<rparr>) b = pointee_at s b"
  by (simp add: pointee_at_def)

lemma pointee_at_trace_upd [simp]: "pointee_at (s\<lparr>trace := X\<rparr>) b = pointee_at s b"
  by (simp add: pointee_at_def)

lemma pointee_at_next_addr_upd [simp]: "pointee_at (s\<lparr>next_addr := X\<rparr>) b = pointee_at s b"
  by (simp add: pointee_at_def)

lemma pointee_at_cnt_upd:
  "fmlookup X b = Some B \<Longrightarrow>
   pointee_at (s\<lparr>blocks := fmupd b (B\<lparr>cnt := c\<rparr>) X\<rparr>) b' =
   map_option (\<lambda>B. pointee (variant B)) (fmlookup X b')"
  by (auto simp: pointee_at_def)

lemma pointee_at_blocks_upd:
  "pointee_at (s\<lparr>blocks := fmupd b B X\<rparr>) b' =
     (if b' = b then Some (pointee (variant B)) else map_option (\<lambda>B. pointee (variant B)) (fmlookup X b'))"
  by (simp add: pointee_at_def)

lemma pointee_at_blocks_drop:
  "pointee_at (s\<lparr>blocks := fmdrop b X\<rparr>) b' =
     (if b' = b then None else map_option (\<lambda>B. pointee (variant B)) (fmlookup X b'))"
  by (simp add: pointee_at_def)

lemma pointee_at_fold: "map_option (\<lambda>B. pointee (variant B)) (fmlookup (blocks s) b) = pointee_at s b"
  by (simp add: pointee_at_def)

lemma pointee_at_None: "pointee_at s b = None \<longleftrightarrow> fmlookup (blocks s) b = None"
  by (simp add: pointee_at_def)

lemma pointee_at_Some: "fmlookup (blocks s) b = Some B \<Longrightarrow> pointee_at s b = Some (pointee (variant B))"
  by (simp add: pointee_at_def)

lemma no_dangling_alt:
  "no_dangling s \<longleftrightarrow> (\<forall>b. holders s b \<noteq> {} \<longrightarrow> pointee_at s b \<noteq> None)"
  by (auto simp: no_dangling_def holders_def pointee_at_None)

lemma owns_live_alt:
  "owns_live s \<longleftrightarrow> (\<forall>b a. pointee_at s b = Some (Some a) \<longrightarrow> fmlookup (objs s) a \<noteq> None)"
  by (auto simp: owns_live_def pointee_at_def)

lemma one_owner_alt:
  "one_owner s \<longleftrightarrow>
     (\<forall>b b' a. pointee_at s b = Some (Some a) \<longrightarrow> pointee_at s b' = Some (Some a) \<longrightarrow> b = b')"
  by (auto simp: one_owner_def pointee_at_def)

lemma backlinks_alt:
  "backlinks s \<longleftrightarrow> (\<forall>a b. Weak a \<in> holders s b \<longrightarrow> pointee_at s b = Some (Some a))"
  by (simp add: backlinks_def Weak_holder pointee_at_def) blast

lemma allocated_alt:
  "allocated s \<longleftrightarrow>
     (\<forall>a. (pointee_at s a \<noteq> None \<or> fmlookup (objs s) a \<noteq> None \<or>
           Destroy a \<in> set (trace s) \<or> Dealloc a \<in> set (trace s)) \<longrightarrow> a < next_addr s)"
  by (simp add: allocated_def pointee_at_None)

lemma apart_alt: "apart s \<longleftrightarrow> (\<forall>a. pointee_at s a \<noteq> None \<longrightarrow> fmlookup (objs s) a = None)"
  by (simp add: apart_def pointee_at_None)

lemma once_alt:
  "once s \<longleftrightarrow>
     (\<forall>a. count_list (trace s) (Destroy a) \<le> 1 \<and> count_list (trace s) (Dealloc a) \<le> 1 \<and>
          (fmlookup (objs s) a \<noteq> None \<longrightarrow> Destroy a \<notin> set (trace s) \<and> Dealloc a \<notin> set (trace s)) \<and>
          (pointee_at s a \<noteq> None \<longrightarrow> Dealloc a \<notin> set (trace s)))"
  by (simp add: once_def pointee_at_None)

lemmas wf_alt = wf_state_def no_dangling_alt owns_live_alt one_owner_alt backlinks_alt allocated_alt
  apart_alt once_alt

lemma wf_handle_noblock:
  assumes wf: "wf_state s" and h: "block h = None" and n: "n < max_handles"
    and old: "\<forall>h0. fmlookup (handles s) n = Some h0 \<longrightarrow> block h0 = None"
  shows "wf_state (s\<lparr>handles := fmupd n h (handles s)\<rparr>)"
proof -
  let ?s = "s\<lparr>handles := fmupd n h (handles s)\<rparr>"
  have "Var n \<notin> holders s b" for b
    using old by (intro not_holder) simp
  then have hold: "holders ?s b = holders s b" for b
    using h by (simp add: holders_handles_upd)
  have "counted ?s" using wf by (simp add: wf_state_def counted_def hold)
  moreover have "bounded ?s" using wf n by (simp add: wf_state_def bounded_def)
  ultimately show ?thesis using wf by (simp add: wf_alt hold)
qed

lemma wf_acquire:
  assumes wf: "wf_state s" and h: "block h = Some b" and n: "n < max_handles"
    and old: "\<forall>h0. fmlookup (handles s) n = Some h0 \<longrightarrow> block h0 = None"
    and B: "fmlookup (blocks s) b = Some B"
  shows "wf_state (s\<lparr>handles := fmupd n h (handles s),
                    blocks := fmupd b (B\<lparr>cnt := cnt B + 1\<rparr>) (blocks s)\<rparr>)"
proof -
  let ?s = "s\<lparr>handles := fmupd n h (handles s), blocks := fmupd b (B\<lparr>cnt := cnt B + 1\<rparr>) (blocks s)\<rparr>"
  have nh: "Var n \<notin> holders s b'" for b'
    using old by (intro not_holder) simp
  have hold: "holders (s\<lparr>handles := fmupd n h (handles s)\<rparr>) b' =
      (if b' = b then insert (Var n) (holders s b) else holders s b')" for b'
    using h nh by (simp add: holders_handles_upd)
  note pt = pointee_at_cnt_upd [OF B] pointee_at_fold
  have bl: "backlinks ?s" using wf by (auto simp: wf_alt hold pt)
  have bd: "bounded ?s" using wf n by (simp add: wf_state_def bounded_def)
  have cB: "unat (cnt B) = card (holders s b)"
    using wf B by (simp add: wf_state_def counted_def)
  have "card (holders ?s b) \<le> Suc max_handles"
    using bd bl by (rule holders_bound)
  then have "unat (cnt B) < Suc max_handles"
    using cB nh [of b] by (simp add: hold)
  then have inc: "unat (cnt B + 1) = Suc (unat (cnt B))"
    by (rule count_incr)
  have "counted ?s" using wf B inc cB nh [of b] by (auto simp: wf_state_def counted_def hold)
  moreover have "no_dangling ?s" using wf B by (auto simp: wf_alt hold pt pointee_at_Some)
  ultimately show ?thesis using wf bl bd by (auto simp: wf_alt pt)
qed

lemma wfD:
  assumes "wf_state s"
  shows "no_dangling s" "counted s" "owns_live s" "one_owner s" "backlinks s" "bounded s"
    "allocated s" "apart s" "once s"
  using assms by (simp_all add: wf_state_def)

lemma backlinksD: "backlinks s \<Longrightarrow> Weak a \<in> holders s b \<Longrightarrow> pointee_at s b = Some (Some a)"
  by (simp add: backlinks_alt)

lemma no_danglingD: "no_dangling s \<Longrightarrow> l \<in> holders s b \<Longrightarrow> pointee_at s b \<noteq> None"
  by (auto simp: no_dangling_alt)

lemma owns_liveD: "owns_live s \<Longrightarrow> pointee_at s b = Some (Some a) \<Longrightarrow> fmlookup (objs s) a \<noteq> None"
  by (simp add: owns_live_alt)

lemma one_ownerD:
  "one_owner s \<Longrightarrow> pointee_at s b = Some (Some a) \<Longrightarrow> pointee_at s b' = Some (Some a) \<Longrightarrow> b = b'"
  by (simp add: one_owner_alt)

lemma countedD:
  "counted s \<Longrightarrow> fmlookup (blocks s) b = Some B \<Longrightarrow> unat (cnt B) = card (holders s b)"
  "counted s \<Longrightarrow> fmlookup (blocks s) b = Some B \<Longrightarrow> 0 < card (holders s b)"
  by (simp_all add: counted_def)

lemma apartD: "apart s \<Longrightarrow> pointee_at s a \<noteq> None \<Longrightarrow> fmlookup (objs s) a = None"
  by (simp add: apart_alt)

lemma allocatedD:
  "allocated s \<Longrightarrow> pointee_at s a \<noteq> None \<Longrightarrow> a < next_addr s"
  "allocated s \<Longrightarrow> fmlookup (objs s) a \<noteq> None \<Longrightarrow> a < next_addr s"
  "allocated s \<Longrightarrow> Destroy a \<in> set (trace s) \<Longrightarrow> a < next_addr s"
  "allocated s \<Longrightarrow> Dealloc a \<in> set (trace s) \<Longrightarrow> a < next_addr s"
  by (simp_all add: allocated_alt)

lemma onceD:
  "once s \<Longrightarrow> count_list (trace s) (Destroy a) \<le> 1"
  "once s \<Longrightarrow> count_list (trace s) (Dealloc a) \<le> 1"
  "once s \<Longrightarrow> fmlookup (objs s) a \<noteq> None \<Longrightarrow> Destroy a \<notin> set (trace s)"
  "once s \<Longrightarrow> fmlookup (objs s) a \<noteq> None \<Longrightarrow> Dealloc a \<notin> set (trace s)"
  "once s \<Longrightarrow> pointee_at s a \<noteq> None \<Longrightarrow> Dealloc a \<notin> set (trace s)"
  by (simp_all add: once_alt)

lemma wf_acquire_weak:
  assumes wf: "wf_state s" and h: "block h = Some b"
    and ob: "fmlookup (objs s) a = Some ob" and w0: "weak_this ob = Some w0" "block w0 = None"
    and B: "fmlookup (blocks s) b = Some B" and pt: "pointee (variant B) = Some a"
  shows "wf_state (s\<lparr>blocks := fmupd b (B\<lparr>cnt := cnt B + 1\<rparr>) (blocks s),
                    objs := fmupd a (ob\<lparr>weak_this := Some h\<rparr>) (objs s)\<rparr>)"
proof -
  let ?s = "s\<lparr>blocks := fmupd b (B\<lparr>cnt := cnt B + 1\<rparr>) (blocks s),
              objs := fmupd a (ob\<lparr>weak_this := Some h\<rparr>) (objs s)\<rparr>"
  have nh: "Weak a \<notin> holders s b'" for b'
    using ob w0 by (intro not_holder) simp
  have hold: "holders ?s b' = (if b' = b then insert (Weak a) (holders s b) else holders s b')" for b'
    using h nh by (simp add: holders_objs_upd)
  note pt' = pointee_at_cnt_upd [OF B] pointee_at_fold
  have ptb: "pointee_at s b = Some (Some a)" using B pt by (simp add: pointee_at_Some)
  have bl: "backlinks ?s"
    using ptb backlinksD [OF wfD(5) [OF wf]] by (auto simp: backlinks_alt hold pt')
  have bd: "bounded ?s" using wf by (simp add: wf_state_def bounded_def)
  have cB: "unat (cnt B) = card (holders s b)"
    using wf B by (simp add: wf_state_def counted_def)
  have "card (holders ?s b) \<le> Suc max_handles"
    using bd bl by (rule holders_bound)
  then have "unat (cnt B) < Suc max_handles"
    using cB nh [of b] by (simp add: hold)
  then have inc: "unat (cnt B + 1) = Suc (unat (cnt B))"
    by (rule count_incr)
  have "counted ?s" using wf B inc cB nh [of b] by (auto simp: wf_state_def counted_def hold)
  moreover have "no_dangling ?s" using wf B by (auto simp: wf_alt hold pt' pointee_at_Some)
  moreover have "owns_live ?s" using wf by (auto simp: wf_alt pt')
  moreover have "one_owner ?s" using wf by (auto simp: wf_alt pt')
  moreover have "allocated ?s" using wf ob by (auto simp: wf_alt pt')
  moreover have "apart ?s" using wf ob by (auto simp: wf_alt pt')
  moreover have "once ?s" using wf ob by (auto simp: wf_alt pt')
  ultimately show ?thesis using bl bd by (simp add: wf_state_def)
qed

lemma wf_move:
  assumes wf: "wf_state s" and n: "n < max_handles" and nm: "n \<noteq> m"
    and old: "\<forall>h0. fmlookup (handles s) n = Some h0 \<longrightarrow> block h0 = None"
    and x: "fmlookup (handles s) m = Some x" and h: "block h = block x" and e: "block e = None"
  shows "wf_state (s\<lparr>handles := fmupd m e (fmupd n h (handles s))\<rparr>)"
proof -
  let ?s = "s\<lparr>handles := fmupd m e (fmupd n h (handles s))\<rparr>"
  have nh: "Var n \<notin> holders s b" for b
    using old by (intro not_holder) simp
  have hold: "holders ?s b = (if block x = Some b then insert (Var n) (holders s b) - {Var m} else holders s b)" for b
  proof (rule set_eqI)
    fix l show "l \<in> holders ?s b \<longleftrightarrow>
      l \<in> (if block x = Some b then insert (Var n) (holders s b) - {Var m} else holders s b)"
      using old h e x nm by (cases l) (auto simp: holders_def)
  qed
  have card: "card (holders ?s b) = card (holders s b)" for b
  proof (cases "block x = Some b")
    case True
    then have "Var m \<in> holders s b" using x by (simp add: Var_holder)
    then show ?thesis using True nh [of b] nm by (simp add: hold)
  next
    case False
    then show ?thesis by (simp add: hold)
  qed
  have ne: "holders ?s b \<noteq> {} \<longleftrightarrow> holders s b \<noteq> {}" for b
    using card [of b] by (metis card_eq_0_iff finite_holders)
  have wk: "Weak a \<in> holders ?s b \<longleftrightarrow> Weak a \<in> holders s b" for a b
    by (auto simp: hold)
  have "counted ?s" using wf by (simp add: wf_state_def counted_def card)
  moreover have "bounded ?s" using wf n x by (auto simp: wf_state_def bounded_def)
  moreover have "no_dangling ?s" using wf by (simp add: wf_alt ne)
  moreover have "backlinks ?s" using wf by (simp add: wf_alt wk)
  ultimately show ?thesis using wf by (simp add: wf_alt)
qed

lemma wf_drop:
  assumes wf: "wf_state s"
    and old: "\<forall>h0. fmlookup (handles s) n = Some h0 \<longrightarrow> block h0 = None"
  shows "wf_state (s\<lparr>handles := fmdrop n (handles s)\<rparr>)"
proof -
  let ?s = "s\<lparr>handles := fmdrop n (handles s)\<rparr>"
  have "Var n \<notin> holders s b" for b
    using old by (intro not_holder) simp
  then have hold: "holders ?s b = holders s b" for b
    by (simp add: holders_handles_drop)
  have "counted ?s" using wf by (simp add: wf_state_def counted_def hold)
  moreover have "bounded ?s" using wf by (simp add: wf_state_def bounded_def)
  ultimately show ?thesis using wf by (simp add: wf_alt hold)
qed

lemma wf_swap:
  assumes wf: "wf_state s"
    and x: "fmlookup (handles s) n = Some x" and y: "fmlookup (handles s) m = Some y"
    and x': "block x' = block x" and y': "block y' = block y"
  shows "wf_state (s\<lparr>handles := fmupd m x' (fmupd n y' (handles s))\<rparr>)"
proof -
  let ?s = "s\<lparr>handles := fmupd m x' (fmupd n y' (handles s))\<rparr>"
  define f where "f = (\<lambda>l. if l = Var n then Var m else if l = Var m then Var n else l)"
  have invol: "f (f l) = l" for l by (simp add: f_def)
  have inj: "inj f" by (rule inj_on_inverseI [where g = f]) (rule invol)
  have hold: "holders ?s b = f ` holders s b" for b
  proof (rule set_eqI)
    fix l
    have "l \<in> holders ?s b \<longleftrightarrow> f l \<in> holders s b"
      using x y x' y' by (cases l) (auto simp: holders_def f_def)
    also have "\<dots> \<longleftrightarrow> l \<in> f ` holders s b"
      by (metis image_iff invol)
    finally show "l \<in> holders ?s b \<longleftrightarrow> l \<in> f ` holders s b" .
  qed
  have card: "card (holders ?s b) = card (holders s b)" for b
    unfolding hold by (rule card_image) (rule inj_on_subset [OF inj], simp)
  have ne: "holders ?s b \<noteq> {} \<longleftrightarrow> holders s b \<noteq> {}" for b
    by (simp add: hold)
  have wk: "Weak a \<in> holders ?s b \<longleftrightarrow> Weak a \<in> holders s b" for a b
    by (auto simp: holders_def)
  have "counted ?s" using wf by (simp add: wf_state_def counted_def card)
  moreover have "bounded ?s" using wf x y by (auto simp: wf_state_def bounded_def)
  moreover have "no_dangling ?s" using wf by (simp add: wf_alt ne)
  moreover have "backlinks ?s" using wf by (simp add: wf_alt wk)
  ultimately show ?thesis using wf by (simp add: wf_alt)
qed

lemma wf_decrement:
  assumes wf: "wf_state s" and h0: "fmlookup (handles s) n = Some h0" "block h0 = Some b"
    and B: "fmlookup (blocks s) b = Some B" and c: "cnt B \<noteq> 1" and e: "block e = None"
  shows "wf_state (s\<lparr>handles := fmupd n e (handles s),
                    blocks := fmupd b (B\<lparr>cnt := cnt B - 1\<rparr>) (blocks s)\<rparr>)"
proof -
  let ?s = "s\<lparr>handles := fmupd n e (handles s), blocks := fmupd b (B\<lparr>cnt := cnt B - 1\<rparr>) (blocks s)\<rparr>"
  have mem: "Var n \<in> holders s b" using h0 by (simp add: Var_holder)
  have nmem: "b' \<noteq> b \<Longrightarrow> Var n \<notin> holders s b'" for b' using h0 by (simp add: Var_holder)
  have hold: "holders (s\<lparr>handles := fmupd n e (handles s)\<rparr>) b' =
      (if b' = b then holders s b - {Var n} else holders s b')" for b'
    using e nmem [of b'] by (simp add: holders_handles_upd)
  note pt = pointee_at_cnt_upd [OF B] pointee_at_fold
  have cB: "unat (cnt B) = card (holders s b)" "0 < card (holders s b)"
    using wf B by (simp_all add: wf_state_def counted_def)
  then have two: "2 \<le> card (holders s b)"
    using c count_one [of "cnt B"] by (cases "card (holders s b) = 1") simp_all
  have dec: "unat (cnt B - 1) = unat (cnt B) - 1"
    using cB by (intro count_decr) simp
  have "counted ?s" using wf B dec cB two mem by (auto simp: wf_state_def counted_def hold)
  moreover have "no_dangling ?s"
    using no_danglingD [OF wfD(1) [OF wf]] by (auto simp: no_dangling_alt hold pt)
  moreover have "backlinks ?s"
    using backlinksD [OF wfD(5) [OF wf]] by (auto simp: backlinks_alt hold pt)
  moreover have "bounded ?s" using wf h0 by (auto simp: wf_state_def bounded_def)
  ultimately show ?thesis using wf by (auto simp: wf_alt pt)
qed

lemma last_holder:
  assumes wf: "wf_state s" and h0: "fmlookup (handles s) n = Some h0" "block h0 = Some b"
    and B: "fmlookup (blocks s) b = Some B" and c: "cnt B = 1"
  shows "holders s b = {Var n}"
proof -
  have "card (holders s b) = 1"
    using countedD(1) [OF wfD(2) [OF wf] B] c by simp
  moreover have "Var n \<in> holders s b" using h0 by (simp add: Var_holder)
  ultimately show ?thesis by (metis card_1_singletonE singletonD)
qed

lemma last_holder_backlink:
  assumes wf: "wf_state s" and h0: "fmlookup (handles s) n = Some h0" "block h0 = Some b"
    and B: "fmlookup (blocks s) b = Some B" and c: "cnt B = 1" and p: "pointee (variant B) = Some a"
  shows "Weak a \<notin> holders s b'"
proof
  assume w: "Weak a \<in> holders s b'"
  have "pointee_at s b' = Some (Some a)" using backlinksD [OF wfD(5) [OF wf] w] .
  moreover have "pointee_at s b = Some (Some a)" using B p by (simp add: pointee_at_Some)
  ultimately have "b' = b" using one_ownerD [OF wfD(4) [OF wf]] by blast
  then show False using w last_holder [OF wf h0 B c] by simp
qed

lemma wf_free_null:
  assumes wf: "wf_state s" and h0: "fmlookup (handles s) n = Some h0" "block h0 = Some b"
    and B: "fmlookup (blocks s) b = Some B" and c: "cnt B = 1" and e: "block e = None"
    and p: "pointee (variant B) = None"
  shows "wf_state (s\<lparr>handles := fmupd n e (handles s), blocks := fmdrop b (blocks s),
                    trace := trace s @ [Dealloc b]\<rparr>)"
proof -
  let ?s = "s\<lparr>handles := fmupd n e (handles s), blocks := fmdrop b (blocks s),
              trace := trace s @ [Dealloc b]\<rparr>"
  note lh = last_holder [OF wf h0 B c]
  have nmem: "b' \<noteq> b \<Longrightarrow> Var n \<notin> holders s b'" for b' using h0 by (simp add: Var_holder)
  have hold: "holders (s\<lparr>handles := fmupd n e (handles s)\<rparr>) b' =
      (if b' = b then {} else holders s b')" for b'
    using e nmem [of b'] lh by (simp add: holders_handles_upd)
  note pt = pointee_at_blocks_drop pointee_at_fold
  have ptb: "pointee_at s b = Some None" using B p by (simp add: pointee_at_Some)
  have "counted ?s" using wf by (auto simp: wf_state_def counted_def hold)
  moreover have "no_dangling ?s"
    using no_danglingD [OF wfD(1) [OF wf]] by (auto simp: no_dangling_alt hold pt)
  moreover have "backlinks ?s"
    using backlinksD [OF wfD(5) [OF wf]] by (auto simp: backlinks_alt hold pt)
  moreover have "bounded ?s" using wf h0 by (auto simp: wf_state_def bounded_def)
  moreover have "owns_live ?s"
    using owns_liveD [OF wfD(3) [OF wf]] by (auto simp: owns_live_alt pt)
  moreover have "one_owner ?s"
    using one_ownerD [OF wfD(4) [OF wf]] by (auto simp: one_owner_alt pt)
  moreover have "apart ?s"
    using apartD [OF wfD(8) [OF wf]] by (auto simp: apart_alt pt)
  moreover have "allocated ?s"
    using allocatedD [OF wfD(7) [OF wf]] ptb by (auto simp: allocated_alt pt)
  moreover have "once ?s"
    unfolding once_alt
  proof (intro allI conjI impI)
    fix a
    show "count_list (trace ?s) (Destroy a) \<le> 1"
      using onceD(1) [OF wfD(9) [OF wf], of a] by simp
    show "count_list (trace ?s) (Dealloc a) \<le> 1"
      using onceD(2) [OF wfD(9) [OF wf], of a] onceD(5) [OF wfD(9) [OF wf], of b] ptb
      by (auto simp: count_list_0_iff)
    show "Destroy a \<notin> set (trace ?s)" if "fmlookup (objs ?s) a \<noteq> None"
      using that onceD(3) [OF wfD(9) [OF wf], of a] by auto
    show "Dealloc a \<notin> set (trace ?s)" if "fmlookup (objs ?s) a \<noteq> None"
      using that onceD(4) [OF wfD(9) [OF wf], of a] apartD [OF wfD(8) [OF wf], of b] ptb by auto
    show "Dealloc a \<notin> set (trace ?s)" if "pointee_at ?s a \<noteq> None"
      using that onceD(5) [OF wfD(9) [OF wf], of a] by (auto simp: pt split: if_splits)
  qed
  ultimately show ?thesis by (simp add: wf_state_def)
qed

lemma holders_cong: "handles s = handles s' \<Longrightarrow> objs s = objs s' \<Longrightarrow> holders s b = holders s' b"
proof (rule set_eqI)
  fix l assume "handles s = handles s'" "objs s = objs s'"
  then show "l \<in> holders s b \<longleftrightarrow> l \<in> holders s' b"
    by (cases l) (simp_all add: holders_def)
qed

lemma destroy_events_cases:
  "destroy_events v a = [Destroy a, Dealloc a] \<or> destroy_events v a = [Destroy a]"
  by (simp add: destroy_events_def split: BlockVariant.splits)

lemma wf_free_object:
  assumes wf: "wf_state s" and h0: "fmlookup (handles s) n = Some h0" "block h0 = Some b"
    and B: "fmlookup (blocks s) b = Some B" and c: "cnt B = 1" and e: "block e = None"
    and p: "pointee (variant B) = Some a"
  shows "wf_state (s\<lparr>handles := fmupd n e (handles s), blocks := fmdrop b (blocks s),
                    objs := fmdrop a (objs s),
                    trace := trace s @ destroy_events (variant B) a @ [Dealloc b]\<rparr>)"
proof -
  let ?es = "destroy_events (variant B) a @ [Dealloc b]"
  let ?s = "s\<lparr>handles := fmupd n e (handles s), blocks := fmdrop b (blocks s),
              objs := fmdrop a (objs s), trace := trace s @ ?es\<rparr>"
  note lh = last_holder [OF wf h0 B c]
  have nw: "Weak a \<notin> holders s b'" for b'
    by (rule last_holder_backlink [OF wf h0 B c p])
  have nmem: "b' \<noteq> b \<Longrightarrow> Var n \<notin> holders s b'" for b' using h0 by (simp add: Var_holder)
  have "holders (s\<lparr>handles := fmupd n e (handles s), objs := fmdrop a (objs s)\<rparr>) b' =
      (if b' = b then {} else holders s b')" for b'
    using e nmem [of b'] lh nw [of b'] by (simp add: holders_objs_drop holders_handles_upd)
  moreover have "holders (s\<lparr>handles := fmupd n e (handles s), blocks := fmdrop b (blocks s),
      objs := fmdrop a (objs s)\<rparr>) b' =
    holders (s\<lparr>handles := fmupd n e (handles s), objs := fmdrop a (objs s)\<rparr>) b'" for b'
    by (rule holders_cong) simp_all
  ultimately have hold: "holders (s\<lparr>handles := fmupd n e (handles s), blocks := fmdrop b (blocks s),
      objs := fmdrop a (objs s)\<rparr>) b' = (if b' = b then {} else holders s b')" for b'
    by simp
  note pt = pointee_at_blocks_drop pointee_at_fold
  have ptb: "pointee_at s b = Some (Some a)" using B p by (simp add: pointee_at_Some)
  have live: "fmlookup (objs s) a \<noteq> None" using owns_liveD [OF wfD(3) [OF wf] ptb] .
  have ab: "a \<noteq> b" using apartD [OF wfD(8) [OF wf], of b] ptb live by auto
  have es: "set ?es \<subseteq> {Destroy a, Dealloc a, Dealloc b}" "Destroy a \<in> set ?es"
    using destroy_events_cases [of "variant B" a] by auto
  have "counted ?s" using wf by (auto simp: wf_state_def counted_def hold)
  moreover have "no_dangling ?s"
    using no_danglingD [OF wfD(1) [OF wf]] by (auto simp: no_dangling_alt hold pt)
  moreover have "backlinks ?s"
    using backlinksD [OF wfD(5) [OF wf]] by (auto simp: backlinks_alt hold pt)
  moreover have "bounded ?s" using wf h0 by (auto simp: wf_state_def bounded_def)
  moreover have "owns_live ?s"
    using owns_liveD [OF wfD(3) [OF wf]] one_ownerD [OF wfD(4) [OF wf] ptb]
    by (auto simp: owns_live_alt pt)
  moreover have "one_owner ?s"
    using one_ownerD [OF wfD(4) [OF wf]] by (auto simp: one_owner_alt pt)
  moreover have "apart ?s"
    using apartD [OF wfD(8) [OF wf]] by (auto simp: apart_alt pt)
  moreover have "allocated ?s"
    unfolding allocated_alt
  proof (intro allI impI)
    fix x
    assume "pointee_at ?s x \<noteq> None \<or> fmlookup (objs ?s) x \<noteq> None \<or>
      Destroy x \<in> set (trace ?s) \<or> Dealloc x \<in> set (trace ?s)"
    then have "pointee_at s x \<noteq> None \<or> fmlookup (objs s) x \<noteq> None \<or>
      Destroy x \<in> set (trace s) \<or> Dealloc x \<in> set (trace s)"
      using es(1) ptb live by (auto simp: pt split: if_splits)
    then show "x < next_addr ?s"
      using allocatedD [OF wfD(7) [OF wf], of x] by auto
  qed
  moreover have "once ?s"
    unfolding once_alt
  proof (intro allI conjI impI)
    fix x
    have na: "Destroy a \<notin> set (trace s)" "Dealloc a \<notin> set (trace s)"
      using onceD(3,4) [OF wfD(9) [OF wf] live] by simp_all
    have nb: "Dealloc b \<notin> set (trace s)"
      using onceD(5) [OF wfD(9) [OF wf], of b] ptb by simp
    show "count_list (trace ?s) (Destroy x) \<le> 1"
      using onceD(1) [OF wfD(9) [OF wf], of x] na destroy_events_cases [of "variant B" a]
      by (auto simp: count_list_0_iff)
    show "count_list (trace ?s) (Dealloc x) \<le> 1"
      using onceD(2) [OF wfD(9) [OF wf], of x] na nb ab destroy_events_cases [of "variant B" a]
      by (auto simp: count_list_0_iff)
    show "Destroy x \<notin> set (trace ?s)" if "fmlookup (objs ?s) x \<noteq> None"
      using that onceD(3) [OF wfD(9) [OF wf], of x] es(1) by (auto split: if_splits)
    show "Dealloc x \<notin> set (trace ?s)" if "fmlookup (objs ?s) x \<noteq> None"
      using that onceD(4) [OF wfD(9) [OF wf], of x] apartD [OF wfD(8) [OF wf], of b] ptb es(1)
      by (auto split: if_splits)
    show "Dealloc x \<notin> set (trace ?s)" if "pointee_at ?s x \<noteq> None"
      using that onceD(5) [OF wfD(9) [OF wf], of x] apartD [OF wfD(8) [OF wf], of a] live es(1)
      by (auto simp: pt split: if_splits)
  qed
  ultimately show ?thesis by (simp add: wf_state_def)
qed

lemma owned_alt: "owned s a \<longleftrightarrow> (\<exists>b. pointee_at s b = Some (Some a))"
  by (auto simp: owned_def fmpred_iff pointee_at_def)

lemma holders_init: "holders init_state b = {}"
  using holders_subset [of init_state b] by (simp add: init_state_def)

lemma wf_init: "wf_state (init_state :: 'v state)"
proof -
  let ?i = "init_state :: 'v state"
  have f: "pointee_at ?i b = None" "fmlookup (objs ?i) b = None"
    "trace ?i = []" "fmlookup (handles ?i) b = None" "fmlookup (blocks ?i) b = None" for b
    by (simp_all add: pointee_at_def init_state_def)
  show ?thesis
    by (simp add: wf_alt holders_init counted_def bounded_def f)
qed

lemma fresh_addr:
  assumes wf: "wf_state s" and b: "next_addr s \<le> b"
  shows "pointee_at s b = None" "fmlookup (objs s) b = None" "Destroy b \<notin> set (trace s)"
    "Dealloc b \<notin> set (trace s)" "holders s b = {}"
proof -
  show p: "pointee_at s b = None" using allocatedD(1) [OF wfD(7) [OF wf], of b] b by (cases "pointee_at s b") auto
  show "fmlookup (objs s) b = None" using allocatedD(2) [OF wfD(7) [OF wf], of b] b by (cases "fmlookup (objs s) b") auto
  show "Destroy b \<notin> set (trace s)" using allocatedD(3) [OF wfD(7) [OF wf], of b] b by auto
  show "Dealloc b \<notin> set (trace s)" using allocatedD(4) [OF wfD(7) [OF wf], of b] b by auto
  show "holders s b = {}" using no_danglingD [OF wfD(1) [OF wf], of _ b] p by auto
qed

lemma wf_new_object:
  assumes wf: "wf_state s" and a: "next_addr s \<le> a" "a < N"
    and w: "\<forall>w. weak_this ob = Some w \<longrightarrow> block w = None"
  shows "wf_state (s\<lparr>objs := fmupd a ob (objs s), next_addr := N\<rparr>)"
proof -
  let ?s = "s\<lparr>objs := fmupd a ob (objs s), next_addr := N\<rparr>"
  note fr = fresh_addr [OF wf a(1)]
  have nh: "Weak a \<notin> holders s b" for b
    using fr(2) by (simp add: Weak_holder)
  have hold: "holders (s\<lparr>objs := fmupd a ob (objs s)\<rparr>) b = holders s b" for b
    using w nh [of b] by (auto simp: holders_objs_upd)
  have "counted ?s" using wf by (auto simp: wf_state_def counted_def hold)
  moreover have "no_dangling ?s" using wf by (simp add: wf_alt hold)
  moreover have "backlinks ?s" using wf by (simp add: wf_alt hold)
  moreover have "bounded ?s" using wf by (auto simp: wf_state_def bounded_def)
  moreover have "owns_live ?s"
    using owns_liveD [OF wfD(3) [OF wf]] by (auto simp: owns_live_alt)
  moreover have "one_owner ?s" using wf by (simp add: wf_alt)
  moreover have "apart ?s"
    using apartD [OF wfD(8) [OF wf]] fr(1) by (auto simp: apart_alt)
  moreover have "allocated ?s"
    using allocatedD [OF wfD(7) [OF wf]] a by (fastforce simp: allocated_alt)
  moreover have "once ?s"
    using wfD(9) [OF wf] fr(3,4) by (auto simp: once_alt)
  ultimately show ?thesis by (simp add: wf_state_def)
qed

lemma wf_new_block:
  assumes wf: "wf_state s" and n: "n < max_handles"
    and old: "\<forall>h0. fmlookup (handles s) n = Some h0 \<longrightarrow> block h0 = None"
    and b: "pointee_at s b = None" "fmlookup (objs s) b = None" "Dealloc b \<notin> set (trace s)"
      "b < N" "next_addr s \<le> N"
    and p: "\<forall>a. pointee V = Some a \<longrightarrow> fmlookup (objs s) a \<noteq> None \<and> \<not> owned s a"
    and es: "\<forall>x. Destroy x \<notin> set es \<and> Dealloc x \<notin> set es"
    and h: "block h = Some b"
  shows "wf_state (s\<lparr>handles := fmupd n h (handles s),
                    blocks := fmupd b \<lparr>cnt = 1, variant = V\<rparr> (blocks s),
                    next_addr := N, trace := trace s @ es\<rparr>)"
proof -
  let ?s = "s\<lparr>handles := fmupd n h (handles s), blocks := fmupd b \<lparr>cnt = 1, variant = V\<rparr> (blocks s),
              next_addr := N, trace := trace s @ es\<rparr>"
  have hb: "holders s b = {}" using no_danglingD [OF wfD(1) [OF wf], of _ b] b(1) by auto
  have nh: "Var n \<notin> holders s b'" for b'
    using old by (intro not_holder) simp
  have hold: "holders (s\<lparr>handles := fmupd n h (handles s)\<rparr>) b' =
      (if b' = b then {Var n} else holders s b')" for b'
    using h nh hb by (simp add: holders_handles_upd)
  note pt = pointee_at_blocks_upd pointee_at_fold
  have cnt: "count_list es (Destroy x) = 0" "count_list es (Dealloc x) = 0" for x
    using es by (simp_all add: count_list_0_iff)
  have "counted ?s" using wf by (auto simp: wf_state_def counted_def hold)
  moreover have "no_dangling ?s"
    using no_danglingD [OF wfD(1) [OF wf]] by (auto simp: no_dangling_alt hold pt)
  moreover have "backlinks ?s"
    using backlinksD [OF wfD(5) [OF wf]] hb by (auto simp: backlinks_alt hold pt)
  moreover have "bounded ?s" using wf n by (auto simp: wf_state_def bounded_def)
  moreover have "owns_live ?s"
    using owns_liveD [OF wfD(3) [OF wf]] p by (auto simp: owns_live_alt pt)
  moreover have "one_owner ?s"
    using one_ownerD [OF wfD(4) [OF wf]] p by (auto simp: one_owner_alt pt owned_alt)
  moreover have "apart ?s"
    using apartD [OF wfD(8) [OF wf]] b(2) by (auto simp: apart_alt pt)
  moreover have "allocated ?s"
    using allocatedD [OF wfD(7) [OF wf]] b(4,5) es by (fastforce simp: allocated_alt pt)
  moreover have "once ?s"
    using onceD [OF wfD(9) [OF wf]] b(3) es by (auto simp: once_alt pt cnt)
  ultimately show ?thesis by (simp add: wf_state_def)
qed

section \<open>What \<^verbatim>\<open>Reset()\<close> computes\<close>

lemma Reset_empty:
  assumes "fmlookup (handles s) n = Some h" "block h = None"
  shows "Reset s (Var n) = Some (s\<lparr>handles := fmupd n nullh (handles s)\<rparr>)"
  using assms by (simp add: Reset_def)

lemma Reset_shared:
  assumes "fmlookup (handles s) n = Some h" "block h = Some b"
    and "fmlookup (blocks s) b = Some B" "cnt B \<noteq> 1"
  shows "Reset s (Var n) =
    Some (s\<lparr>handles := fmupd n nullh (handles s), blocks := fmupd b (B\<lparr>cnt := cnt B - 1\<rparr>) (blocks s)\<rparr>)"
  using assms by (simp add: Reset_def release.simps)

lemma Reset_last_null:
  assumes "fmlookup (handles s) n = Some h" "block h = Some b"
    and "fmlookup (blocks s) b = Some B" "cnt B = 1" "pointee (variant B) = None"
  shows "Reset s (Var n) =
    Some (s\<lparr>handles := fmupd n nullh (handles s), blocks := fmdrop b (blocks s),
            trace := trace s @ [Dealloc b]\<rparr>)"
  using assms by (simp add: Reset_def release.simps delete_block_def log_def fmdrop_fmupd_same)

lemma Reset_last_object:
  assumes "fmlookup (handles s) n = Some h" "block h = Some b"
    and "fmlookup (blocks s) b = Some B" "cnt B = 1" "pointee (variant B) = Some a"
    and "fmlookup (objs s) a = Some ob" "\<forall>w. weak_this ob = Some w \<longrightarrow> block w = None"
  shows "Reset s (Var n) =
    Some (s\<lparr>handles := fmupd n nullh (handles s), blocks := fmdrop b (blocks s),
            objs := fmdrop a (objs s),
            trace := trace s @ destroy_events (variant B) a @ [Dealloc b]\<rparr>)"
  using assms
  by (cases "weak_this ob")
     (simp_all add: Reset_def release.simps delete_block_def log_def fmdrop_fmupd_same Let_def)

section \<open>\<^verbatim>\<open>Reset()\<close> keeps the invariant\<close>

lemma keeps_refl: "keeps s s"
  by (simp add: keeps_def)

lemma keeps_trans: "keeps s s' \<Longrightarrow> keeps s' s'' \<Longrightarrow> keeps s s''"
  unfolding keeps_def by (intro conjI) (blast, metis)

lemma keeps_objs: "objs s' = objs s \<Longrightarrow> keeps s s'"
  by (simp add: keeps_def)

text \<open>What \<^verbatim>\<open>Reset()\<close> on a variable leaves of a state.\<close>

lemma Reset_wf:
  assumes wf: "wf_state s" and h: "fmlookup (handles s) n = Some h"
  shows "\<exists>s'. Reset s (Var n) = Some s' \<and> wf_state s' \<and> keeps s s' \<and>
           handles s' = fmupd n nullh (handles s) \<and> next_addr s' = next_addr s \<and>
           (\<forall>b. pointee_at s' b = None \<or> pointee_at s' b = pointee_at s b) \<and>
           (\<forall>a. fmlookup (objs s') a = fmlookup (objs s) a \<or> owned s a)"
proof (cases "block h")
  case None
  have "wf_state (s\<lparr>handles := fmupd n nullh (handles s)\<rparr>)"
    using wf h None wfD(6) [OF wf]
    by (intro wf_handle_noblock) (auto simp: nullh_def bounded_def)
  then show ?thesis
    using Reset_empty [OF h None] by (simp add: keeps_objs)
next
  case (Some b)
  have "Var n \<in> holders s b" using h Some by (simp add: Var_holder)
  then obtain B where B: "fmlookup (blocks s) b = Some B"
    using no_danglingD [OF wfD(1) [OF wf]] by (fastforce simp: pointee_at_def)
  have e: "block nullh = None" by (simp add: nullh_def)
  show ?thesis
  proof (cases "cnt B = 1")
    case False
    show ?thesis
      using Reset_shared [OF h Some B False] wf_decrement [OF wf h Some B False e]
      by (simp add: keeps_objs pointee_at_cnt_upd [OF B] pointee_at_fold)
  next
    case True
    show ?thesis
    proof (cases "pointee (variant B)")
      case None
      show ?thesis
        using Reset_last_null [OF h Some B True None] wf_free_null [OF wf h Some B True e None]
        by (simp add: keeps_objs pointee_at_blocks_drop pointee_at_fold)
    next
      case (Some a)
      have ptb: "pointee_at s b = Some (Some a)" using B Some by (simp add: pointee_at_Some)
      then obtain ob where ob: "fmlookup (objs s) a = Some ob"
        using owns_liveD [OF wfD(3) [OF wf]] by blast
      have nw: "Weak a \<notin> holders s b'" for b'
        by (rule last_holder_backlink [OF wf h \<open>block h = Some b\<close> B True Some])
      have w: "\<forall>w. weak_this ob = Some w \<longrightarrow> block w = None"
      proof (intro allI impI)
        fix w assume "weak_this ob = Some w"
        then show "block w = None"
          using nw [of "the (block w)"] ob by (cases "block w") (auto simp: Weak_holder)
      qed
      have k: "keeps s (s\<lparr>handles := fmupd n nullh (handles s), blocks := fmdrop b (blocks s),
            objs := fmdrop a (objs s),
            trace := trace s @ destroy_events (variant B) a @ [Dealloc b]\<rparr>)"
        using ob w by (auto simp: keeps_def)
      have ow: "owned s a" using ptb by (auto simp: owned_alt)
      show ?thesis
        using Reset_last_object [OF h \<open>block h = Some b\<close> B True Some ob w]
          wf_free_object [OF wf h \<open>block h = Some b\<close> B True e Some] k ow
        by (simp add: pointee_at_blocks_drop pointee_at_fold)
    qed
  qed
qed

section \<open>The members keep the invariant\<close>

lemma holder_block_live:
  assumes wf: "wf_state s" and l: "get_handle s l = Some src" "block src = Some b"
  shows "\<exists>B. fmlookup (blocks s) b = Some B"
proof -
  have "l \<in> holders s b" using l by (auto simp: holders_def)
  then show ?thesis
    using no_danglingD [OF wfD(1) [OF wf]] by (fastforce simp: pointee_at_def)
qed

text \<open>A handle without a block takes the fields of a copy and the count goes up.\<close>

lemma share_wf:
  assumes wf: "wf_state s" and n: "n < max_handles"
    and old: "\<forall>h0. fmlookup (handles s) n = Some h0 \<longrightarrow> block h0 = None"
    and src: "get_handle s l = Some src" and h: "block h = block src"
  shows "\<exists>s'. share (s\<lparr>handles := fmupd n h (handles s)\<rparr>) (block src) = Some s' \<and> wf_state s' \<and>
           objs s' = objs s \<and> handles s' = fmupd n h (handles s) \<and> next_addr s' = next_addr s \<and>
           trace s' = trace s"
proof (cases "block src")
  case None
  then show ?thesis
    using wf_handle_noblock [OF wf _ n old, of h] h by (simp add: share_def)
next
  case (Some b)
  obtain B where B: "fmlookup (blocks s) b = Some B"
    using holder_block_live [OF wf src Some] by blast
  show ?thesis
    using wf_acquire [OF wf _ n old B, of h] h Some B by (simp add: share_def)
qed

text \<open>
  \<^verbatim>\<open>InternalSetWeakThis\<close> right after the block of the pointee is made: the member is
  empty, and takes a copy of the handle.
\<close>

lemma install_wf:
  assumes wf: "wf_state s" and h: "fmlookup (handles s) n = Some h" "block h = Some b"
    and B: "fmlookup (blocks s) b = Some B" "cnt B = 1" "pointee (variant B) = Some a"
    and v: "ptr h = Some a"
    and run: "copy_assign s (Weak a) (Var n) = Some s'"
  shows "wf_state s' \<and> keeps s s' \<and> handles s' = handles s \<and> next_addr s' = next_addr s \<and>
         trace s' = trace s \<and>
         get_handle s' (Weak a) = Some \<lparr>ptr = ptr h, block = Some b\<rparr> \<and>
         fmlookup (blocks s') b = Some (B\<lparr>cnt := 2\<rparr>) \<and>
         (\<forall>x. x \<noteq> a \<longrightarrow> fmlookup (objs s') x = fmlookup (objs s) x) \<and>
         map_option val (fmlookup (objs s') a) = map_option val (fmlookup (objs s) a)"
proof -
  obtain ob w where ob: "fmlookup (objs s) a = Some ob" "weak_this ob = Some w"
    using run by (auto simp: copy_assign_def Reset_def split: option.splits Option.bind_splits)
  have nw: "Weak a \<notin> holders s b'" for b'
    by (rule last_holder_backlink [OF wf h B])
  have w: "block w = None"
    using nw [of "the (block w)"] ob by (cases "block w") (auto simp: Weak_holder)
  let ?h = "\<lparr>ptr = ptr h, block = Some b\<rparr>"
  have s': "s' = s\<lparr>blocks := fmupd b (B\<lparr>cnt := cnt B + 1\<rparr>) (blocks s),
                   objs := fmupd a (ob\<lparr>weak_this := Some ?h\<rparr>) (objs s)\<rparr>"
    using run ob w h B
    by (auto simp: copy_assign_def Reset_def share_def nullh_def intro!: state.equality)
  have "wf_state s'"
    unfolding s' by (rule wf_acquire_weak [OF wf _ ob w B(1,3)]) simp
  moreover have "keeps s s'"
    using ob w v by (auto simp: keeps_def s')
  ultimately show ?thesis
    using B(2) ob by (simp add: s')
qed

lemma default_wf:
  assumes wf: "wf_state s" and n: "n < max_handles" and run: "SharedPtr_default s n = Some s'"
  shows "wf_state s' \<and> keeps s s'"
proof -
  have u: "fmlookup (handles s) n = None" and s': "s' = s\<lparr>handles := fmupd n \<lparr>ptr = None, block = None\<rparr> (handles s)\<rparr>"
    using run by (auto simp: SharedPtr_default_def unused_def split: if_splits)
  show ?thesis
    unfolding s' using wf_handle_noblock [OF wf _ n, of "\<lparr>ptr = None, block = None\<rparr>"] u
    by (simp add: keeps_objs)
qed

lemma copy_wf:
  assumes wf: "wf_state s" and n: "n < max_handles" and u: "unused s n"
    and run: "(get_handle s l \<bind> (\<lambda>src. share (set_handle (Var n) \<lparr>ptr = p src, block = block src\<rparr> s) (block src))) = Some s'"
  shows "wf_state s' \<and> keeps s s'"
proof -
  obtain src where src: "get_handle s l = Some src"
    and sh: "share (s\<lparr>handles := fmupd n \<lparr>ptr = p src, block = block src\<rparr> (handles s)\<rparr>) (block src) = Some s'"
    using run by (auto split: Option.bind_splits)
  have old: "\<forall>h0. fmlookup (handles s) n = Some h0 \<longrightarrow> block h0 = None"
    using u by (simp add: unused_def)
  show ?thesis
    using share_wf [OF wf n old src, of "\<lparr>ptr = p src, block = block src\<rparr>"] sh
    by (auto simp: keeps_objs)
qed

lemma move_wf:
  assumes wf: "wf_state s" and n: "n < max_handles" and u: "unused s n"
    and run: "(get_handle s (Var m) \<bind> (\<lambda>src. Some (set_handle (Var m) nullh
        (set_handle (Var n) \<lparr>ptr = ptr src, block = block src\<rparr> s)))) = Some s'"
  shows "wf_state s' \<and> keeps s s'"
proof -
  obtain src where src: "fmlookup (handles s) m = Some src"
    and s': "s' = s\<lparr>handles := fmupd m nullh (fmupd n \<lparr>ptr = ptr src, block = block src\<rparr> (handles s))\<rparr>"
    using run by (auto split: Option.bind_splits)
  have old: "\<forall>h0. fmlookup (handles s) n = Some h0 \<longrightarrow> block h0 = None"
    using u by (simp add: unused_def)
  have nm: "n \<noteq> m" using u src by (auto simp: unused_def)
  show ?thesis
    unfolding s' using wf_move [OF wf n nm old src, of "\<lparr>ptr = ptr src, block = block src\<rparr>" nullh]
    by (simp add: keeps_objs nullh_def)
qed

lemma copy_assign_wf:
  assumes wf: "wf_state s" and run: "copy_assign s (Var n) (Var m) = Some s'"
  shows "wf_state s' \<and> keeps s s'"
proof (cases "n = m")
  case True
  then show ?thesis using run wf by (auto simp: copy_assign_def keeps_refl split: Option.bind_splits)
next
  case False
  obtain s1 src where r: "Reset s (Var n) = Some s1" and src: "get_handle s1 (Var m) = Some src"
    and sh: "share (set_handle (Var n) \<lparr>ptr = ptr src, block = block src\<rparr> s1) (block src) = Some s'"
    using run False by (auto simp: copy_assign_def split: Option.bind_splits)
  obtain h where h: "fmlookup (handles s) n = Some h"
    using r by (auto simp: Reset_def split: Option.bind_splits)
  have s1: "wf_state s1" "keeps s s1" "handles s1 = fmupd n nullh (handles s)"
    using Reset_wf [OF wf h] r by auto
  have nb: "n < max_handles" using wfD(6) [OF wf] h by (auto simp: bounded_def)
  have old: "\<forall>h0. fmlookup (handles s1) n = Some h0 \<longrightarrow> block h0 = None"
    by (simp add: s1(3) nullh_def)
  show ?thesis
    using share_wf [OF s1(1) nb old src, of "\<lparr>ptr = ptr src, block = block src\<rparr>"] sh s1(2)
    by (auto intro: keeps_trans keeps_objs)
qed

lemma move_assign_wf:
  assumes wf: "wf_state s" and run: "move_assign s (Var n) (Var m) = Some s'"
  shows "wf_state s' \<and> keeps s s'"
proof (cases "n = m")
  case True
  then show ?thesis using run wf by (auto simp: move_assign_def keeps_refl split: Option.bind_splits)
next
  case False
  obtain s1 src where r: "Reset s (Var n) = Some s1" and src: "fmlookup (handles s1) m = Some src"
    and s': "s' = s1\<lparr>handles := fmupd m nullh (fmupd n \<lparr>ptr = ptr src, block = block src\<rparr> (handles s1))\<rparr>"
    using run False by (auto simp: move_assign_def split: Option.bind_splits)
  obtain h where h: "fmlookup (handles s) n = Some h"
    using r by (auto simp: Reset_def split: Option.bind_splits)
  have s1: "wf_state s1" "keeps s s1" "handles s1 = fmupd n nullh (handles s)"
    using Reset_wf [OF wf h] r by auto
  have nb: "n < max_handles" using wfD(6) [OF wf] h by (auto simp: bounded_def)
  have old: "\<forall>h0. fmlookup (handles s1) n = Some h0 \<longrightarrow> block h0 = None"
    by (simp add: s1(3) nullh_def)
  have "wf_state s'"
    unfolding s' using wf_move [OF s1(1) nb False old src, of "\<lparr>ptr = ptr src, block = block src\<rparr>" nullh]
    by (simp add: nullh_def)
  moreover have "keeps s1 s'" by (simp add: s' keeps_objs)
  ultimately show ?thesis using s1(2) by (auto intro: keeps_trans)
qed

lemma copy_assign_conv_cases:
  assumes "copy_assign_conv s this other = Some s'"
  shows "s' = s \<or> copy_assign s this other = Some s'"
  using assms
  by (cases "this = other") (auto simp: copy_assign_conv_def copy_assign_def split: Option.bind_splits if_splits)

lemma move_assign_conv_cases:
  assumes "move_assign_conv s this other = Some s'"
  shows "s' = s \<or> move_assign s this other = Some s'"
  using assms
  by (cases "this = other") (auto simp: move_assign_conv_def move_assign_def split: Option.bind_splits if_splits)

lemma swap_wf:
  assumes wf: "wf_state s" and run: "Swap s (Var n) (Var m) = Some s'"
  shows "wf_state s' \<and> keeps s s'"
proof -
  obtain x y where x: "fmlookup (handles s) n = Some x" and y: "fmlookup (handles s) m = Some y"
    and s': "s' = s\<lparr>handles := fmupd m \<lparr>ptr = ptr x, block = block x\<rparr>
        (fmupd n \<lparr>ptr = ptr y, block = block y\<rparr> (handles s))\<rparr>"
    using run by (auto simp: Swap_def split: Option.bind_splits)
  show ?thesis
    unfolding s' using wf_swap [OF wf x y, of "\<lparr>ptr = ptr x, block = block x\<rparr>" "\<lparr>ptr = ptr y, block = block y\<rparr>"]
    by (simp add: keeps_objs)
qed

lemma dtor_wf:
  assumes wf: "wf_state s" and run: "SharedPtr_dtor s n = Some s'"
  shows "wf_state s' \<and> keeps s s'"
proof -
  obtain s1 where r: "Reset s (Var n) = Some s1" and s': "s' = s1\<lparr>handles := fmdrop n (handles s1)\<rparr>"
    using run by (auto simp: SharedPtr_dtor_def split: Option.bind_splits)
  obtain h where h: "fmlookup (handles s) n = Some h"
    using r by (auto simp: Reset_def split: Option.bind_splits)
  have s1: "wf_state s1" "keeps s s1" "handles s1 = fmupd n nullh (handles s)"
    using Reset_wf [OF wf h] r by auto
  have old: "\<forall>h0. fmlookup (handles s1) n = Some h0 \<longrightarrow> block h0 = None"
    by (simp add: s1(3) nullh_def)
  have "wf_state s'" unfolding s' by (rule wf_drop [OF s1(1) old])
  moreover have "keeps s1 s'" by (simp add: s' keeps_objs)
  ultimately show ?thesis using s1(2) by (auto intro: keeps_trans)
qed

lemma client_new_wf:
  assumes wf: "wf_state s"
  shows "wf_state (client_new s v esft) \<and> keeps s (client_new s v esft)"
proof -
  have "wf_state (client_new s v esft)"
    unfolding client_new_def by (rule wf_new_object [OF wf]) (simp_all add: nullh_def)
  moreover have "keeps s (client_new s v esft)"
    using fresh_addr(2) [OF wf order_refl] by (auto simp: keeps_def client_new_def nullh_def)
  ultimately show ?thesis ..
qed

text \<open>
  A new block with count one for a pointer nobody owns, taken by a handle, and then
  \<^verbatim>\<open>MakeEnableSharedFromThis\<close>.
\<close>

lemma new_block_install:
  assumes wf: "wf_state s" and n: "n < max_handles"
    and old: "\<forall>h0. fmlookup (handles s) n = Some h0 \<longrightarrow> block h0 = None"
    and b: "pointee_at s b = None" "fmlookup (objs s) b = None" "Dealloc b \<notin> set (trace s)"
      "b < N" "next_addr s \<le> N"
    and p: "\<forall>a. pointee V = Some a \<longrightarrow> fmlookup (objs s) a \<noteq> None \<and> \<not> owned s a"
    and es: "\<forall>x. Destroy x \<notin> set es \<and> Dealloc x \<notin> set es"
    and q: "q = pointee V"
    and s2: "s2 = s\<lparr>handles := fmupd n \<lparr>ptr = q, block = Some b\<rparr> (handles s),
                    blocks := fmupd b \<lparr>cnt = 1, variant = V\<rparr> (blocks s),
                    next_addr := N, trace := trace s @ es\<rparr>"
    and run: "MakeEnableSharedFromThis s2 (Var n) (pointee V) esft = Some s'"
  shows "wf_state s' \<and> keeps s s' \<and> handles s' = handles s2 \<and> next_addr s' = N \<and>
         trace s' = trace s @ es \<and>
         (\<exists>B. fmlookup (blocks s') b = Some B \<and> variant B = V \<and>
              cnt B = (if esft \<and> pointee V \<noteq> None then 2 else 1)) \<and>
         (\<forall>a. esft \<and> pointee V = Some a \<longrightarrow>
              get_handle s' (Weak a) = Some \<lparr>ptr = q, block = Some b\<rparr>) \<and>
         (\<forall>x. pointee V \<noteq> Some x \<longrightarrow> fmlookup (objs s') x = fmlookup (objs s) x) \<and>
         (\<forall>x. map_option val (fmlookup (objs s') x) = map_option val (fmlookup (objs s) x))"
proof -
  have wf2: "wf_state s2"
    unfolding s2 by (rule wf_new_block [OF wf n old b p es]) simp
  have k2: "keeps s s2" by (simp add: s2 keeps_objs)
  show ?thesis
  proof (cases "esft \<and> pointee V \<noteq> None")
    case False
    then have "s' = s2" using run by (auto simp: MakeEnableSharedFromThis_def split: option.splits)
    then show ?thesis using wf2 k2 False by (auto simp: s2)
  next
    case True
    then obtain a where a: "pointee V = Some a" by auto
    have run': "copy_assign s2 (Weak a) (Var n) = Some s'"
      using run True a by (simp add: MakeEnableSharedFromThis_def InternalSetWeakThis_def)
    have h: "fmlookup (handles s2) n = Some \<lparr>ptr = q, block = Some b\<rparr>" by (simp add: s2)
    have B: "fmlookup (blocks s2) b = Some \<lparr>cnt = 1, variant = V\<rparr>" by (simp add: s2)
    have qa: "ptr \<lparr>ptr = q, block = Some b\<rparr> = Some a" using q a by simp
    note i = install_wf [OF wf2 h _ B _ _ qa run', simplified, OF a]
    have "keeps s s'" using k2 i by (auto intro: keeps_trans)
    moreover have "fmlookup (objs s') x = fmlookup (objs s) x" if "pointee V \<noteq> Some x" for x
      using i that a by (simp add: s2)
    moreover have "map_option val (fmlookup (objs s') x) = map_option val (fmlookup (objs s) x)" for x
      using i by (cases "x = a") (simp_all add: s2)
    ultimately show ?thesis using i True a by (simp add: s2)
  qed
qed

lemma raw_ok_pointee:
  "raw_ok s p \<Longrightarrow> \<forall>a. pointee (ControlBlock p) = Some a \<longrightarrow> fmlookup (objs s) a \<noteq> None \<and> \<not> owned s a"
  by (auto simp: raw_ok_def pointee_def)

lemma ptr_ctor_wf:
  assumes wf: "wf_state s" and n: "n < max_handles" and p: "raw_ok s p"
    and run: "SharedPtr_ptr s n p esft = Some s'"
  shows "wf_state s' \<and> keeps s s' \<and> (\<forall>a. esft \<and> p = Some a \<longrightarrow> bound_to s' a)"
proof (cases p)
  case None
  have u: "fmlookup (handles s) n = None" and s': "s' = s\<lparr>handles := fmupd n \<lparr>ptr = None, block = None\<rparr> (handles s)\<rparr>"
    using run None by (auto simp: SharedPtr_ptr_def unused_def split: if_splits)
  show ?thesis
    unfolding s' using wf_handle_noblock [OF wf _ n, of "\<lparr>ptr = None, block = None\<rparr>"] u None
    by (simp add: keeps_objs)
next
  case (Some a)
  let ?b = "next_addr s"
  let ?s2 = "s\<lparr>handles := fmupd n \<lparr>ptr = p, block = Some ?b\<rparr> (handles s),
               blocks := fmupd ?b \<lparr>cnt = 1, variant = ControlBlock p\<rparr> (blocks s),
               next_addr := Suc ?b, trace := trace s @ [Alloc ?b]\<rparr>"
  have u: "fmlookup (handles s) n = None"
    using run by (auto simp: SharedPtr_ptr_def unused_def split: if_splits)
  have "set_handle (Var n) \<lparr>ptr = p, block = Some ?b\<rparr> (snd (new_ControlBlock s p)) = ?s2"
    by (auto simp: new_ControlBlock_def log_def Let_def intro!: state.equality)
  then have run': "MakeEnableSharedFromThis ?s2 (Var n) (pointee (ControlBlock p)) esft = Some s'"
    using run Some u by (simp add: SharedPtr_ptr_def unused_def new_ControlBlock_def pointee_def Let_def)
  note fr = fresh_addr [OF wf order_refl]
  show ?thesis
    using new_block_install [OF wf n _ fr(1,2,4) _ _ raw_ok_pointee [OF p] _ _ refl run'] u
    by (simp add: pointee_def bound_to_def)
qed

lemma Reset_raw_ok:
  assumes p: "raw_ok s p"
    and fr: "\<forall>b. pointee_at s1 b = None \<or> pointee_at s1 b = pointee_at s b"
      "\<forall>a. fmlookup (objs s1) a = fmlookup (objs s) a \<or> owned s a"
  shows "raw_ok s1 p"
proof (cases p)
  case None
  then show ?thesis by (simp add: raw_ok_def)
next
  case (Some a)
  then have a: "fmlookup (objs s) a \<noteq> None" "\<not> owned s a"
    using p by (simp_all add: raw_ok_def)
  have "fmlookup (objs s1) a \<noteq> None" using fr(2) a by metis
  moreover have "\<not> owned s1 a"
  proof
    assume "owned s1 a"
    then obtain b where "pointee_at s1 b = Some (Some a)" by (auto simp: owned_alt)
    then have "pointee_at s b = Some (Some a)" using fr(1) by (metis option.distinct(1))
    then show False using a(2) by (auto simp: owned_alt)
  qed
  ultimately show ?thesis using Some by (simp add: raw_ok_def)
qed

lemma Reset_ptr_wf:
  assumes wf: "wf_state s" and pre: "raw_pre s (ResetPtr n p esft)"
    and run: "Reset_ptr s (Var n) p esft = Some s'"
  shows "wf_state s' \<and> keeps s s' \<and>
         (\<forall>a h. esft \<and> p = Some a \<and> fmlookup (handles s) n = Some h \<and> ptr h \<noteq> p \<longrightarrow> bound_to s' a)"
proof -
  obtain h where h: "fmlookup (handles s) n = Some h"
    using run by (auto simp: Reset_ptr_def split: Option.bind_splits)
  show ?thesis
  proof (cases "ptr h = p")
    case True
    then show ?thesis using run h wf by (simp add: Reset_ptr_def keeps_refl)
  next
    case False
    then have p: "raw_ok s p" using pre h by simp
    obtain s1 where r: "Reset s (Var n) = Some s1"
      using run h False by (auto simp: Reset_ptr_def split: Option.bind_splits)
    have s1: "wf_state s1" "keeps s s1" "handles s1 = fmupd n nullh (handles s)"
      "\<forall>b. pointee_at s1 b = None \<or> pointee_at s1 b = pointee_at s b"
      "\<forall>a. fmlookup (objs s1) a = fmlookup (objs s) a \<or> owned s a"
      using Reset_wf [OF wf h] r by auto
    have p1: "raw_ok s1 p" by (rule Reset_raw_ok [OF p s1(4,5)])
    have nb: "n < max_handles" using wfD(6) [OF wf] h by (auto simp: bounded_def)
    have old: "\<forall>h0. fmlookup (handles s1) n = Some h0 \<longrightarrow> block h0 = None"
      by (simp add: s1(3) nullh_def)
    let ?b = "next_addr s1"
    let ?s2 = "s1\<lparr>handles := fmupd n \<lparr>ptr = p, block = Some ?b\<rparr> (handles s1),
               blocks := fmupd ?b \<lparr>cnt = 1, variant = ControlBlock p\<rparr> (blocks s1),
               next_addr := Suc ?b, trace := trace s1 @ [Alloc ?b]\<rparr>"
    have "set_handle (Var n) \<lparr>ptr = p, block = Some ?b\<rparr> (snd (new_ControlBlock s1 p)) = ?s2"
      by (auto simp: new_ControlBlock_def log_def Let_def intro!: state.equality)
    then have run': "MakeEnableSharedFromThis ?s2 (Var n) (pointee (ControlBlock p)) esft = Some s'"
      using run h False r by (simp add: Reset_ptr_def new_ControlBlock_def pointee_def Let_def)
    note fr = fresh_addr [OF s1(1) order_refl]
    have "wf_state s' \<and> keeps s1 s' \<and> (\<forall>a. esft \<and> p = Some a \<longrightarrow> bound_to s' a)"
      using new_block_install [OF s1(1) nb old fr(1,2,4) _ _ raw_ok_pointee [OF p1] _ _ refl run']
      by (simp add: pointee_def bound_to_def)
    then show ?thesis using s1(2) by (auto intro: keeps_trans)
  qed
qed

lemma MakeShared_wf:
  assumes wf: "wf_state s" and n: "n < max_handles"
    and run: "MakeShared s n ctor args cap esft = Some (Returns s')"
  shows "wf_state s' \<and> keeps s s' \<and> (esft \<longrightarrow> bound_to s' (Suc (next_addr s)))"
proof -
  obtain v where v: "ctor args = Some v"
    using run by (auto simp: MakeShared_def Let_def split: if_splits option.splits)
  let ?b = "next_addr s"
  let ?a = "Suc ?b"
  let ?ob = "\<lparr>val = v, weak_this = (if cap then Some nullh else None)\<rparr>"
  let ?s0 = "s\<lparr>objs := fmupd ?a ?ob (objs s), next_addr := Suc ?a\<rparr>"
  let ?s2 = "?s0\<lparr>handles := fmupd n \<lparr>ptr = Some ?a, block = Some ?b\<rparr> (handles ?s0),
               blocks := fmupd ?b \<lparr>cnt = 1, variant = Control ?a\<rparr> (blocks ?s0),
               next_addr := Suc ?a, trace := trace ?s0 @ [Alloc ?b, Construct ?a]\<rparr>"
  have u: "fmlookup (handles s) n = None"
    using run by (auto simp: MakeShared_def unused_def split: if_splits)
  have wf0: "wf_state ?s0"
    by (rule wf_new_object [OF wf]) (simp_all add: nullh_def)
  have k0: "keeps s ?s0"
    using fresh_addr(2) [OF wf, of ?a] by (auto simp: keeps_def nullh_def)
  have run': "MakeEnableSharedFromThis ?s2 (Var n) (pointee (Control ?a)) esft = Some s'"
  proof -
    have "set_handle (Var n) \<lparr>ptr = Some ?a, block = Some ?b\<rparr>
        (set_handle (Var n) \<lparr>ptr = None, block = None\<rparr>
          (log [Alloc ?b, Construct ?a]
            (s\<lparr>blocks := fmupd ?b \<lparr>cnt = 1, variant = Control ?a\<rparr> (blocks s),
               objs := fmupd ?a ?ob (objs s), next_addr := Suc ?a\<rparr>))) = ?s2"
      by (auto simp: log_def intro!: state.equality)
    then show ?thesis
      using run u v by (auto simp: MakeShared_def unused_def Let_def pointee_def)
  qed
  note fr = fresh_addr [OF wf order_refl]
  have no: "\<not> owned ?s0 ?a"
  proof
    assume "owned ?s0 ?a"
    then obtain b where "pointee_at s b = Some (Some ?a)" by (auto simp: owned_alt)
    then have "fmlookup (objs s) ?a \<noteq> None" by (rule owns_liveD [OF wfD(3) [OF wf]])
    then show False using fresh_addr(2) [OF wf, of ?a] by simp
  qed
  have old: "\<forall>h0. fmlookup (handles ?s0) n = Some h0 \<longrightarrow> block h0 = None"
    using u by simp
  have b1: "pointee_at ?s0 ?b = None" using fr(1) by simp
  have b2: "fmlookup (objs ?s0) ?b = None" using fr(2) by simp
  have b3: "Dealloc ?b \<notin> set (trace ?s0)" using fr(4) by simp
  have b4: "?b < Suc ?a" by simp
  have b5: "next_addr ?s0 \<le> Suc ?a" by simp
  have p: "\<forall>x. pointee (Control ?a) = Some x \<longrightarrow> fmlookup (objs ?s0) x \<noteq> None \<and> \<not> owned ?s0 x"
    using no by (simp add: pointee_def)
  have es: "\<forall>x. Destroy x \<notin> set [Alloc ?b, Construct ?a] \<and> Dealloc x \<notin> set [Alloc ?b, Construct ?a]"
    by simp
  have q: "Some ?a = pointee (Control ?a)" by (simp add: pointee_def)
  have "wf_state s' \<and> keeps ?s0 s' \<and>
      (\<forall>a. esft \<and> pointee (Control ?a) = Some a \<longrightarrow>
         get_handle s' (Weak a) = Some \<lparr>ptr = Some ?a, block = Some ?b\<rparr>)"
    using new_block_install [OF wf0 n old b1 b2 b3 b4 b5 p es q refl run'] by blast
  then have "wf_state s' \<and> keeps ?s0 s' \<and> (esft \<longrightarrow> bound_to s' ?a)"
    by (simp add: pointee_def bound_to_def)
  then show ?thesis using k0 by (blast intro: keeps_trans)
qed

text \<open>A constructor that throws leaves an allocation that was made and freed.\<close>

lemma MakeShared_throws_wf:
  assumes wf: "wf_state s" and run: "MakeShared s n ctor args cap esft = Some (Throws s')"
  shows "wf_state s' \<and> keeps s s'"
proof -
  let ?b = "next_addr s"
  have s': "s' = s\<lparr>next_addr := Suc (Suc ?b), trace := trace s @ [Alloc ?b, Dealloc ?b]\<rparr>"
    using run by (auto simp: MakeShared_def Let_def log_def split: if_splits option.splits)
  note fr = fresh_addr [OF wf order_refl]
  have "counted s'" using wf by (simp add: wf_state_def counted_def s')
  moreover have "no_dangling s'" using wf by (simp add: wf_alt s')
  moreover have "backlinks s'" using wf by (simp add: wf_alt s')
  moreover have "bounded s'" using wf by (simp add: wf_state_def bounded_def s')
  moreover have "owns_live s'" using wf by (simp add: wf_alt s')
  moreover have "one_owner s'" using wf by (simp add: wf_alt s')
  moreover have "apart s'" using wf by (simp add: wf_alt s')
  moreover have "allocated s'"
    using allocatedD [OF wfD(7) [OF wf]] by (fastforce simp: allocated_alt s')
  moreover have "once s'"
    using wfD(9) [OF wf] fr(1,2,4) by (auto simp: once_alt s')
  ultimately have "wf_state s'" by (simp add: wf_state_def)
  moreover have "keeps s s'" by (rule keeps_objs) (simp add: s')
  ultimately show ?thesis ..
qed

section \<open>Every statement keeps the invariant\<close>

lemma step_wf:
  assumes wf: "wf_state s" and pre: "pre s c" and run: "step s c = Some s'"
  shows "wf_state s' \<and> keeps s s'"
proof (cases c)
  case (New v esft)
  then show ?thesis using run client_new_wf [OF wf] by auto
next
  case (Default n)
  then show ?thesis using run pre default_wf [OF wf] by (auto simp: pre_def)
next
  case (Nullptr n)
  then show ?thesis using run pre default_wf [OF wf] by (auto simp: pre_def SharedPtr_nullptr_def)
next
  case (Wrap n p esft)
  then show ?thesis using run pre ptr_ctor_wf [OF wf] by (auto simp: pre_def)
next
  case (Copy n m)
  then have "n < max_handles" "unused s n" using run pre
    by (auto simp: pre_def SharedPtr_copy_def split: if_splits)
  then show ?thesis using copy_wf [OF wf, of n "Var m" ptr s'] run Copy
    by (simp add: SharedPtr_copy_def)
next
  case (Move n m)
  then have "n < max_handles" "unused s n" using run pre
    by (auto simp: pre_def SharedPtr_move_def split: if_splits)
  then show ?thesis using move_wf [OF wf, of n m s'] run Move
    by (simp add: SharedPtr_move_def)
next
  case (CopyConv n m)
  then have "n < max_handles" "unused s n" using run pre
    by (auto simp: pre_def SharedPtr_copy_conv_def split: if_splits)
  then show ?thesis using copy_wf [OF wf, of n "Var m" ptr s'] run CopyConv
    by (simp add: SharedPtr_copy_conv_def)
next
  case (MoveConv n m)
  then have "n < max_handles" "unused s n" using run pre
    by (auto simp: pre_def SharedPtr_move_conv_def split: if_splits)
  then show ?thesis using move_wf [OF wf, of n m s'] run MoveConv
    by (simp add: SharedPtr_move_conv_def)
next
  case (Alias n m p)
  then have "n < max_handles" "unused s n" using run pre
    by (auto simp: pre_def SharedPtr_alias_def split: if_splits)
  then show ?thesis using copy_wf [OF wf, of n "Var m" "\<lambda>_. p" s'] run Alias
    by (simp add: SharedPtr_alias_def)
next
  case (Assign n m)
  then show ?thesis using run copy_assign_wf [OF wf] by auto
next
  case (MoveAssign n m)
  then show ?thesis using run move_assign_wf [OF wf] by auto
next
  case (AssignConv n m)
  then show ?thesis
    using run copy_assign_conv_cases [of s "Var n" "Var m" s'] copy_assign_wf [OF wf, of n m s'] wf
    by (auto simp: keeps_refl)
next
  case (MoveAssignConv n m)
  then show ?thesis
    using run move_assign_conv_cases [of s "Var n" "Var m" s'] move_assign_wf [OF wf, of n m s'] wf
    by (auto simp: keeps_refl)
next
  case (ResetNone n)
  then obtain h where "fmlookup (handles s) n = Some h"
    using run by (auto simp: Reset_def split: Option.bind_splits)
  then show ?thesis using Reset_wf [OF wf, of n h] run ResetNone by auto
next
  case (ResetPtr n p esft)
  then show ?thesis using run pre Reset_ptr_wf [OF wf, of n p esft s'] by (auto simp: pre_def)
next
  case (SwapWith n m)
  then show ?thesis using run swap_wf [OF wf] by auto
next
  case (Destruct n)
  then show ?thesis using run dtor_wf [OF wf] by auto
next
  case (Make n r cap esft)
  then obtain X where X: "MakeShared s n (\<lambda>x. x) r cap esft = Some X" and s': "s' = after X"
    using run by auto
  have nb: "n < max_handles" using pre Make by (simp add: pre_def)
  show ?thesis
  proof (cases X)
    case (Returns t)
    then show ?thesis using MakeShared_wf [OF wf nb, of "\<lambda>x. x" r cap esft t] X s' by simp
  next
    case (Throws t)
    then show ?thesis using MakeShared_throws_wf [OF wf, of n "\<lambda>x. x" r cap esft t] X s' by simp
  qed
next
  case (FromThis n a)
  then have "n < max_handles" "unused s n" using run pre
    by (auto simp: pre_def SharedFromThis_def Lock_def SharedPtr_copy_def split: if_splits)
  then show ?thesis using copy_wf [OF wf, of n "Weak a" ptr s'] run FromThis
    by (simp add: SharedFromThis_def Lock_def SharedPtr_copy_def)
qed

lemma exec_wf:
  assumes "wf_state s" and "exec s cs = Some s'"
  shows "wf_state s' \<and> keeps s s'"
  using assms
proof (induction cs arbitrary: s)
  case Nil
  then show ?case by (simp add: keeps_refl)
next
  case (Cons c cs)
  from Cons.prems(2) obtain s1 where c: "pre s c" "step s c = Some s1" and cs: "exec s1 cs = Some s'"
    by (auto split: if_splits option.splits)
  have "wf_state s1 \<and> keeps s s1" using step_wf [OF Cons.prems(1) c] .
  then show ?case using Cons.IH [OF _ cs] by (auto intro: keeps_trans)
qed

lemma exec_append:
  "exec s (cs @ ds) = (case exec s cs of None \<Rightarrow> None | Some s1 \<Rightarrow> exec s1 ds)"
  by (induction cs arbitrary: s) (auto split: option.splits)

lemma reachable_wf: "exec init_state cs = Some s \<Longrightarrow> wf_state s"
  using exec_wf [OF wf_init] by blast

section \<open>The count and the live handles\<close>



section \<open>Destruction happens once\<close>





section \<open>The self-reference keeps its pointee alive\<close>

text \<open>
  C8.  Once the member \<^verbatim>\<open>weak_this_\<close> of a pointee holds a block (it is installed when a
  handle is constructed over the pointee), no later client program destroys the pointee
  or frees the block: the member stays as it is, it is one of the holders of the block,
  and the count of the block stays above zero, also when every variable of the client
  that held the block has been reset or destroyed.
\<close>

theorem backlink_keeps_pointee_alive:
  assumes "exec init_state cs = Some s"
    and "get_handle s (Weak a) = Some w" and "block w = Some b"
    and "exec s ds = Some s'"
  shows "get_handle s' (Weak a) = Some w \<and> fmlookup (objs s') a = fmlookup (objs s) a \<and>
         fmlookup (objs s') a \<noteq> None \<and> Weak a \<in> holders s' b \<and>
         (\<exists>B. fmlookup (blocks s') b = Some B \<and> pointee (variant B) = Some a \<and> cnt B \<noteq> 0 \<and>
              unat (cnt B) = card (holders s' b)) \<and>
         Destroy a \<notin> set (trace s') \<and> Dealloc a \<notin> set (trace s') \<and> Dealloc b \<notin> set (trace s')"
proof -
  have wf: "wf_state s" using assms(1) by (rule reachable_wf)
  have wf': "wf_state s'" and k: "keeps s s'" using exec_wf [OF wf assms(4)] by simp_all
  obtain ob where ob: "fmlookup (objs s) a = Some ob" "weak_this ob = Some w"
    using assms(2) by (auto split: option.splits)
  have ob': "fmlookup (objs s') a = Some ob"
    using k ob assms(3) unfolding keeps_def by blast
  have g: "get_handle s' (Weak a) = Some w" using ob' ob(2) by simp
  have hold: "Weak a \<in> holders s' b" using ob' ob(2) assms(3) by (simp add: Weak_holder)
  have pt: "pointee_at s' b = Some (Some a)" by (rule backlinksD [OF wfD(5) [OF wf'] hold])
  then obtain B where B: "fmlookup (blocks s') b = Some B" "pointee (variant B) = Some a"
    by (auto simp: pointee_at_def)
  have c: "unat (cnt B) = card (holders s' b)" "0 < card (holders s' b)"
    using countedD [OF wfD(2) [OF wf'] B(1)] by simp_all
  have nz: "cnt B \<noteq> 0" using c by (auto simp: unat_gt_0 [symmetric])
  have live: "fmlookup (objs s') a \<noteq> None" using ob' by simp
  have ptn: "pointee_at s' b \<noteq> None" using pt by simp
  show ?thesis
    using g ob ob' hold B c(1) nz onceD(3,4) [OF wfD(9) [OF wf'] live] onceD(5) [OF wfD(9) [OF wf'] ptn]
    by simp
qed

theorem backlink_keeps_pointee_alive_witness:
  "get_handle (the (exec (init_state :: nat state) [New 5 True, Wrap 0 (Some 0) True])) (Weak 0) =
     Some \<lparr>ptr = Some 0, block = Some 1\<rparr> \<and>
   handles (the (exec (init_state :: nat state)
     [New 5 True, Wrap 0 (Some 0) True, Copy 1 0, Destruct 0, Destruct 1])) = fmempty \<and>
   fmlookup (objs (the (exec (init_state :: nat state)
     [New 5 True, Wrap 0 (Some 0) True, Copy 1 0, Destruct 0, Destruct 1]))) 0 \<noteq> None \<and>
   Destroy 0 \<notin> set (trace (the (exec (init_state :: nat state)
     [New 5 True, Wrap 0 (Some 0) True, Copy 1 0, Destruct 0, Destruct 1]))) \<and>
   Dealloc 1 \<notin> set (trace (the (exec (init_state :: nat state)
     [New 5 True, Wrap 0 (Some 0) True, Copy 1 0, Destruct 0, Destruct 1])))"
proof -
  let ?cs = "[New 5 True, Wrap 0 (Some 0) True] :: nat stmt list"
  let ?all = "[New 5 True, Wrap 0 (Some 0) True, Copy 1 0, Destruct 0, Destruct 1] :: nat stmt list"
  define S where "S = the (exec init_state ?cs)"
  define S' where "S' = the (exec init_state ?all)"
  have e: "exec init_state ?cs = Some S" unfolding S_def by (simp add: run_defs)
  have g: "get_handle S (Weak 0) = Some \<lparr>ptr = Some 0, block = Some 1\<rparr>"
    unfolding S_def by (simp add: run_defs)
  have bl: "block \<lparr>ptr = Some 0, block = Some 1\<rparr> = Some 1" by simp
  have e': "exec S [Copy 1 0, Destruct 0, Destruct 1] = Some S'"
    unfolding S_def S'_def by (simp add: run_defs)
  have hs: "handles S' = fmempty"
    unfolding S'_def by (simp add: run_defs fmap_ext)
  note T = backlink_keeps_pointee_alive [OF e g bl e']
  show ?thesis
    unfolding S_def [symmetric] S'_def [symmetric] using T g hs by blast
qed

section \<open>\<^verbatim>\<open>SharedFromThis\<close>\<close>

lemma backlink_view:
  assumes "exec (init_state :: 'v state) cs = Some s"
    and "get_handle s (Weak a) = Some w" and "block w = Some b"
  shows "ptr w = Some a"
proof -
  have "keeps (init_state :: 'v state) s" using exec_wf [OF wf_init assms(1)] by simp
  then have "ptr w = Some a \<or> get_handle (init_state :: 'v state) (Weak a) = Some w"
    using assms(2,3) unfolding keeps_def by blast
  then show ?thesis by (simp add: init_state_def)
qed

text \<open>
  C9.  \<^verbatim>\<open>SharedFromThis()\<close> on a live pointee with the capability returns a copy of its
  member \<^verbatim>\<open>weak_this_\<close>.  When the member was never set, the result is an empty handle
  and nothing else changes.  When the member holds a block (the pointee has been bound
  to an owning handle), every handle \<open>h\<close> that holds the block of the pointee and views
  the pointee sees a result with the same \<^verbatim>\<open>Get()\<close>, and its \<^verbatim>\<open>UseCount()\<close> goes up by
  exactly one.
\<close>

theorem SharedFromThis_returns_owner:
  assumes "exec init_state cs = Some s"
    and "unused s k" and "k < max_handles"
    and "get_handle s (Weak a) = Some w"
  shows "\<exists>s' h2. SharedFromThis s k a = Some s' \<and> get_handle s' (Var k) = Some h2 \<and>
           (w = nullh \<longrightarrow> h2 = nullh \<and> UseCount s' h2 = Some 0 \<and>
              s' = s\<lparr>handles := fmupd k nullh (handles s)\<rparr>) \<and>
           (\<forall>m h b. fmlookup (handles s) m = Some h \<and> ptr h = Some a \<and> block h = Some b \<and>
                pointee_at s b = Some (Some a) \<and> block w \<noteq> None \<longrightarrow>
              Get h2 = Get h \<and> get_handle s' (Var m) = Some h \<and>
              UseCount s' h2 = UseCount s' h \<and>
              (\<exists>c. UseCount s h = Some c \<and> UseCount s' h = Some (c + 1) \<and>
                   unat (c + 1) = unat c + 1))"
proof -
  have wf: "wf_state s" using assms(1) by (rule reachable_wf)
  have old: "\<forall>h0. fmlookup (handles s) k = Some h0 \<longrightarrow> block h0 = None"
    using assms(2) by (simp add: unused_def)
  let ?h2 = "\<lparr>ptr = ptr w, block = block w\<rparr>"
  obtain s' where sh: "share (s\<lparr>handles := fmupd k ?h2 (handles s)\<rparr>) (block w) = Some s'"
    and wf': "wf_state s'" and hs: "handles s' = fmupd k ?h2 (handles s)" and os: "objs s' = objs s"
    using share_wf [OF wf assms(3) old assms(4), of ?h2] by auto
  have run: "SharedFromThis s k a = Some s'"
    using sh assms(2,4) by (simp add: SharedFromThis_def Lock_def SharedPtr_copy_def)
  have g2: "get_handle s' (Var k) = Some ?h2" by (simp add: hs)
  have nullcase: "?h2 = nullh \<and> UseCount s' ?h2 = Some 0 \<and> s' = s\<lparr>handles := fmupd k nullh (handles s)\<rparr>"
    if "w = nullh"
    using that sh by (simp add: nullh_def share_def UseCount_def)
  have owner: "Get ?h2 = Get h \<and> get_handle s' (Var m) = Some h \<and> UseCount s' ?h2 = UseCount s' h \<and>
      (\<exists>c. UseCount s h = Some c \<and> UseCount s' h = Some (c + 1) \<and> unat (c + 1) = unat c + 1)"
    if h: "fmlookup (handles s) m = Some h" "ptr h = Some a" "block h = Some b"
      and own: "pointee_at s b = Some (Some a)" and w: "block w \<noteq> None" for m h b
  proof -
    obtain b' where b': "block w = Some b'" using w by auto
    have "Weak a \<in> holders s b'" using assms(4) b' by (auto simp: holders_def)
    then have "pointee_at s b' = Some (Some a)" by (rule backlinksD [OF wfD(5) [OF wf]])
    then have bb: "b' = b" using one_ownerD [OF wfD(4) [OF wf] _ own] by blast
    have pw: "ptr w = Some a" by (rule backlink_view [OF assms(1,4) b'])
    obtain B where B: "fmlookup (blocks s) b = Some B"
      using own by (auto simp: pointee_at_def)
    have s': "s' = s\<lparr>handles := fmupd k ?h2 (handles s), blocks := fmupd b (B\<lparr>cnt := cnt B + 1\<rparr>) (blocks s)\<rparr>"
      using sh b' bb B by (simp add: share_def)
    have km: "k \<noteq> m" using assms(2) h(1) by (auto simp: unused_def)
    have B': "fmlookup (blocks s') b = Some (B\<lparr>cnt := cnt B + 1\<rparr>)" by (simp add: s')
    have "unat (cnt (B\<lparr>cnt := cnt B + 1\<rparr>)) = card (holders s' b)"
      by (rule countedD(1) [OF wfD(2) [OF wf'] B'])
    moreover have "holders s' b = insert (Var k) (holders s b)"
      using b' bb by (simp add: s' holders_handles_upd)
    moreover have "Var k \<notin> holders s b" using old by (intro not_holder) simp
    moreover have "unat (cnt B) = card (holders s b)" by (rule countedD(1) [OF wfD(2) [OF wf] B])
    ultimately have inc: "unat (cnt B + 1) = unat (cnt B) + 1" by simp
    show ?thesis
      using h pw b' bb B B' km inc by (simp add: Get_def UseCount_def hs)
  qed
  show ?thesis
    using run g2 nullcase owner by blast
qed

theorem SharedFromThis_returns_owner_witness:
  "Get_at (the (SharedFromThis (the (exec (init_state :: nat state) [New 5 True, Wrap 0 (Some 0) True])) 1 0))
     (Var 1) = Some (Some 0) \<and>
   Get_at (the (exec (init_state :: nat state) [New 5 True, Wrap 0 (Some 0) True])) (Var 0) = Some (Some 0) \<and>
   UseCount_at (the (exec (init_state :: nat state) [New 5 True, Wrap 0 (Some 0) True])) (Var 0) = Some 2 \<and>
   UseCount_at (the (SharedFromThis (the (exec (init_state :: nat state) [New 5 True, Wrap 0 (Some 0) True])) 1 0))
     (Var 0) = Some 3 \<and>
   UseCount_at (the (SharedFromThis (the (exec (init_state :: nat state) [New 5 True, Wrap 0 (Some 0) True])) 1 0))
     (Var 1) = Some 3"
proof -
  let ?cs = "[New 5 True, Wrap 0 (Some 0) True] :: nat stmt list"
  let ?h = "\<lparr>ptr = Some 0, block = Some 1\<rparr>"
  define S where "S = the (exec init_state ?cs)"
  have e: "exec init_state ?cs = Some S" unfolding S_def by (simp add: run_defs)
  have u: "unused S 1" unfolding S_def by (simp add: run_defs)
  have k: "(1 :: nat) < max_handles" by (simp add: max_handles_def)
  have w: "get_handle S (Weak 0) = Some ?h" unfolding S_def by (simp add: run_defs)
  have h: "fmlookup (handles S) 0 = Some ?h" unfolding S_def by (simp add: run_defs)
  have p: "pointee_at S 1 = Some (Some 0)" unfolding S_def by (simp add: run_defs pointee_at_def)
  have c: "UseCount S ?h = Some 2" unfolding S_def by (simp add: run_defs)
  from SharedFromThis_returns_owner [OF e u k w]
  obtain s' h2 where r: "SharedFromThis S 1 0 = Some s'" and g2: "get_handle s' (Var 1) = Some h2"
    and own: "\<forall>m h b. fmlookup (handles S) m = Some h \<and> ptr h = Some 0 \<and> block h = Some b \<and>
                pointee_at S b = Some (Some 0) \<and> block ?h \<noteq> None \<longrightarrow>
              Get h2 = Get h \<and> get_handle s' (Var m) = Some h \<and>
              UseCount s' h2 = UseCount s' h \<and>
              (\<exists>c. UseCount S h = Some c \<and> UseCount s' h = Some (c + 1) \<and>
                   unat (c + 1) = unat c + 1)"
    by blast
  have "Get h2 = Get ?h \<and> get_handle s' (Var 0) = Some ?h \<and>
              UseCount s' h2 = UseCount s' ?h \<and>
              (\<exists>c. UseCount S ?h = Some c \<and> UseCount s' ?h = Some (c + 1) \<and>
                   unat (c + 1) = unat c + 1)"
    using own [rule_format, of 0 ?h 1] h p by simp
  then have "Get_at s' (Var 1) = Some (Some 0)" "UseCount_at s' (Var 0) = Some 3"
    "UseCount_at s' (Var 1) = Some 3"
    using g2 c by (auto simp: Get_at_def UseCount_at_def Get_def)
  moreover have "Get_at S (Var 0) = Some (Some 0)" "UseCount_at S (Var 0) = Some 2"
    using h c by (simp_all add: Get_at_def UseCount_at_def Get_def)
  ultimately show ?thesis
    unfolding S_def [symmetric] r option.sel by (intro conjI)
qed

section \<open>\<^verbatim>\<open>MakeShared\<close>\<close>

text \<open>
  C3, as the code has it.  When the constructor of the value returns, \<^verbatim>\<open>MakeShared\<close>
  makes one allocation, at an address not in use, constructs the value once from the
  arguments in the storage of that allocation, and returns a handle that views the
  storage and holds the new block.  \<^verbatim>\<open>UseCount()\<close> of the handle is 2 when the value
  type \<^verbatim>\<open>T\<close> derives from \<^verbatim>\<open>EnableSharedFromThis<T>\<close>, the member \<^verbatim>\<open>weak_this_\<close> of the
  value being a second holder, and 1 when it does not, also when the value has the
  member through a base class.  When the constructor throws, the allocation is freed,
  nothing is constructed, no handle is made and no block or pointee is left.
\<close>

theorem MakeShared_allocates_once:
  assumes "exec init_state cs = Some s" and "unused s n" and "esft \<longrightarrow> cap"
  shows "(\<forall>v. ctor args = Some v \<longrightarrow>
      (\<exists>s'. MakeShared s n ctor args cap esft = Some (Returns s') \<and>
         trace s' = trace s @ [Alloc (next_addr s), Construct (Suc (next_addr s))] \<and>
         fmlookup (blocks s) (next_addr s) = None \<and> fmlookup (objs s) (Suc (next_addr s)) = None \<and>
         get_handle s' (Var n) = Some \<lparr>ptr = Some (Suc (next_addr s)), block = Some (next_addr s)\<rparr> \<and>
         map_option variant (fmlookup (blocks s') (next_addr s)) = Some (Control (Suc (next_addr s))) \<and>
         map_option val (fmlookup (objs s') (Suc (next_addr s))) = Some v \<and>
         UseCount_at s' (Var n) = Some (if esft then 2 else 1))) \<and>
    (ctor args = None \<longrightarrow>
      (\<exists>s'. MakeShared s n ctor args cap esft = Some (Throws s') \<and>
         trace s' = trace s @ [Alloc (next_addr s), Dealloc (next_addr s)] \<and>
         handles s' = handles s \<and> blocks s' = blocks s \<and> objs s' = objs s))"
proof -
  have wf: "wf_state s" using assms(1) by (rule reachable_wf)
  have "pointee_at s (next_addr s) = None" by (rule fresh_addr(1) [OF wf order_refl])
  then have fb: "fmlookup (blocks s) (next_addr s) = None" by (simp add: pointee_at_None)
  have fo: "fmlookup (objs s) (Suc (next_addr s)) = None" by (rule fresh_addr(2) [OF wf]) simp
  have throws: "\<exists>s'. MakeShared s n ctor args cap esft = Some (Throws s') \<and>
         trace s' = trace s @ [Alloc (next_addr s), Dealloc (next_addr s)] \<and>
         handles s' = handles s \<and> blocks s' = blocks s \<and> objs s' = objs s"
    if "ctor args = None"
    using that assms(2) by (simp add: MakeShared_def Let_def log_def)
  have returns: "\<exists>s'. MakeShared s n ctor args cap esft = Some (Returns s') \<and>
         trace s' = trace s @ [Alloc (next_addr s), Construct (Suc (next_addr s))] \<and>
         fmlookup (blocks s) (next_addr s) = None \<and> fmlookup (objs s) (Suc (next_addr s)) = None \<and>
         get_handle s' (Var n) = Some \<lparr>ptr = Some (Suc (next_addr s)), block = Some (next_addr s)\<rparr> \<and>
         map_option variant (fmlookup (blocks s') (next_addr s)) = Some (Control (Suc (next_addr s))) \<and>
         map_option val (fmlookup (objs s') (Suc (next_addr s))) = Some v \<and>
         UseCount_at s' (Var n) = Some (if esft then 2 else 1)"
    if "ctor args = Some v" for v
  proof (cases esft)
    case True
    then have "cap" using assms(3) by simp
    then show ?thesis
      using that assms(2) fb fo True
      by (simp add: MakeShared_def MakeEnableSharedFromThis_def InternalSetWeakThis_def
          copy_assign_def Reset_def share_def log_def nullh_def unused_def UseCount_at_def
          UseCount_def Let_def)
  next
    case False
    then show ?thesis
      using that assms(2) fb fo
      by (simp add: MakeShared_def MakeEnableSharedFromThis_def log_def unused_def UseCount_at_def
          UseCount_def Let_def)
  qed
  show ?thesis using throws returns by blast
qed

theorem MakeShared_allocates_once_witness:
  "UseCount_at (after (the (MakeShared (the (exec (init_state :: nat state) [Default 0])) 1
       (\<lambda>x. Some (Suc x)) 6 True False))) (Var 1) = Some 1 \<and>
   trace (after (the (MakeShared (the (exec (init_state :: nat state) [Default 0])) 1
       (\<lambda>x. Some (Suc x)) 6 True False))) = [Alloc 0, Construct 1] \<and>
   get_handle (after (the (MakeShared (the (exec (init_state :: nat state) [Default 0])) 1
       (\<lambda>x. Some (Suc x)) 6 True False))) (Var 1) = Some \<lparr>ptr = Some 1, block = Some 0\<rparr> \<and>
   map_option val (fmlookup (objs (after (the (MakeShared (the (exec (init_state :: nat state) [Default 0])) 1
       (\<lambda>x. Some (Suc x)) 6 True False)))) 1) = Some 7"
proof -
  define S where "S = the (exec (init_state :: nat state) [Default 0])"
  have e: "exec (init_state :: nat state) [Default 0] = Some S" unfolding S_def by (simp add: run_defs)
  have u: "unused S 1" unfolding S_def by (simp add: run_defs)
  have t: "False \<longrightarrow> True" by simp
  have n: "next_addr S = 0" "trace S = []" unfolding S_def by (simp_all add: run_defs)
  have c: "(\<lambda>x. Some (Suc x)) (6 :: nat) = Some 7" by simp
  note T = MakeShared_allocates_once [OF e u t, where ctor = "\<lambda>x. Some (Suc x)" and args = 6,
      THEN conjunct1, rule_format, OF c]
  then obtain s' where r: "MakeShared S 1 (\<lambda>x. Some (Suc x)) 6 True False = Some (Returns s')"
    and "trace s' = [Alloc 0, Construct 1]"
      "get_handle s' (Var 1) = Some \<lparr>ptr = Some 1, block = Some 0\<rparr>"
      "map_option val (fmlookup (objs s') 1) = Some 7"
      "UseCount_at s' (Var 1) = Some 1"
    unfolding n by auto
  then show ?thesis
    unfolding S_def [symmetric] r option.sel after.simps by (intro conjI)
qed

text \<open>
  C3, as stated, fails for a value type \<^verbatim>\<open>T\<close> that derives from
  \<^verbatim>\<open>EnableSharedFromThis<T>\<close>: the returned handle has \<^verbatim>\<open>UseCount() == 2\<close>.  It fails
  also for a constructor that throws: no handle is returned.
\<close>

theorem MakeShared_UseCount_counterexample:
  "UseCount_at (after (the (MakeShared (init_state :: nat state) 0 (\<lambda>x. Some (Suc x)) 6 True True))) (Var 0) =
     Some 2 \<and>
   UseCount_at (after (the (MakeShared (init_state :: nat state) 0 (\<lambda>x. Some (Suc x)) 6 True True))) (Var 0) \<noteq>
     Some 1 \<and>
   MakeShared (init_state :: nat state) 0 (\<lambda>x. None) (6 :: nat) False False =
     Some (Throws (init_state\<lparr>next_addr := 2, trace := [Alloc 0, Dealloc 0]\<rparr>)) \<and>
   get_handle (init_state\<lparr>next_addr := 2, trace := [Alloc 0, Dealloc 0]\<rparr> :: nat state) (Var 0) = None"
  by (simp add: run_defs)

section \<open>Handles without a block\<close>

lemma delete_block_frame:
  "delete_block s b = Some s' \<Longrightarrow> handles s' = handles s \<and> objs s' = objs s"
  by (auto simp: delete_block_def log_def split: option.splits)

text \<open>Releasing a block touches no variable and no member of a pointee that stays.\<close>

lemma release_frame:
  "release s b = Some s' \<Longrightarrow>
   handles s' = handles s \<and> (\<forall>a ob. fmlookup (objs s') a = Some ob \<longrightarrow> fmlookup (objs s) a = Some ob)"
proof (induction s b arbitrary: s' rule: release.induct)
  case (1 s b)
  from "1.prems" obtain B where B: "fmlookup (blocks s) b = Some B"
    by (auto simp: release.simps [of s b] split: option.splits)
  let ?c = "cnt B - 1"
  let ?s1 = "s\<lparr>blocks := fmupd b (B\<lparr>cnt := ?c\<rparr>) (blocks s)\<rparr>"
  show ?case
  proof (cases "?c = 0")
    case False
    then have "s' = ?s1" using "1.prems" B by (simp add: release.simps [of s b] Let_def)
    then show ?thesis by simp
  next
    case True
    show ?thesis
    proof (cases "pointee (variant B)")
      case None
      then have "delete_block ?s1 b = Some s'"
        using "1.prems" B True by (simp add: release.simps [of s b] Let_def)
      then show ?thesis using delete_block_frame by fastforce
    next
      case (Some a)
      then obtain ob where ob: "fmlookup (objs s) a = Some ob"
        using "1.prems" B True by (auto simp: release.simps [of s b] Let_def split: option.splits)
      let ?s2 = "log (destroy_events (variant B) a) (?s1\<lparr>objs := fmdrop a (objs ?s1)\<rparr>)"
      have fr2: "handles ?s2 = handles s"
        "\<forall>x ob. fmlookup (objs ?s2) x = Some ob \<longrightarrow> fmlookup (objs s) x = Some ob"
        by (auto simp: log_def split: if_splits)
      show ?thesis
      proof (cases "\<exists>w b'. weak_this ob = Some w \<and> block w = Some b'")
        case False
        then have "delete_block ?s2 b = Some s'"
          using "1.prems" B True Some ob
          by (cases "weak_this ob")
             (auto simp: release.simps [of s b] Let_def split: option.splits)
        then have "handles s' = handles ?s2 \<and> objs s' = objs ?s2" by (rule delete_block_frame)
        then show ?thesis using fr2 by simp
      next
        case True2: True
        then obtain w b' where w: "weak_this ob = Some w" "block w = Some b'" by blast
        obtain s3 where s3: "release ?s2 b' = Some s3" and d: "delete_block s3 b = Some s'"
          using "1.prems" B True Some ob w
          by (auto simp: release.simps [of s b] Let_def split: option.splits)
        have "handles s3 = handles ?s2 \<and>
            (\<forall>x ob. fmlookup (objs s3) x = Some ob \<longrightarrow> fmlookup (objs ?s2) x = Some ob)"
          using "1.IH" [OF B refl refl True Some _ refl w s3] ob by simp
        moreover have "handles s' = handles s3 \<and> objs s' = objs s3" using d by (rule delete_block_frame)
        ultimately show ?thesis using fr2 by simp
      qed
    qed
  qed
qed

lemma handle_inv_blocks_upd [simp]: "handle_inv (s\<lparr>blocks := X\<rparr>) = handle_inv s"
  by (simp add: handle_inv_def)

lemma handle_inv_trace_upd [simp]: "handle_inv (s\<lparr>trace := X\<rparr>) = handle_inv s"
  by (simp add: handle_inv_def)

lemma handle_inv_next_addr_upd [simp]: "handle_inv (s\<lparr>next_addr := X\<rparr>) = handle_inv s"
  by (simp add: handle_inv_def)

lemma handle_inv_log [simp]: "handle_inv (log es s) = handle_inv s"
  by (simp add: log_def)

lemma handle_invD: "handle_inv s \<Longrightarrow> get_handle s l = Some h \<Longrightarrow> block h = None \<Longrightarrow> ptr h = None"
  by (simp add: handle_inv_def)

lemma handle_inv_frame:
  assumes "handle_inv s" and "handles s' = handles s"
    and "\<forall>a ob. fmlookup (objs s') a = Some ob \<longrightarrow> fmlookup (objs s) a = Some ob"
  shows "handle_inv s'"
  unfolding handle_inv_def
proof (intro allI impI)
  fix l h assume g: "get_handle s' l = Some h" and b: "block h = None"
  have "get_handle s l = Some h"
    using g assms(2,3) by (cases l) (auto split: option.splits)
  then show "ptr h = None" using b by (rule handle_invD [OF assms(1)])
qed

lemma handle_inv_set:
  assumes "handle_inv s" and "block h = None \<longrightarrow> ptr h = None"
  shows "handle_inv (set_handle l h s)"
  unfolding handle_inv_def
proof (intro allI impI)
  fix l' h' assume g: "get_handle (set_handle l h s) l' = Some h'" and b: "block h' = None"
  have "h' = h \<or> get_handle s l' = Some h'"
    using g by (cases l; cases l') (auto split: option.splits if_splits)
  then show "ptr h' = None"
  proof
    assume "h' = h"
    then show ?thesis using assms(2) b by simp
  next
    assume "get_handle s l' = Some h'"
    then show ?thesis using b by (rule handle_invD [OF assms(1)])
  qed
qed

lemma handle_inv_handles_drop:
  assumes "handle_inv s"
  shows "handle_inv (s\<lparr>handles := fmdrop n (handles s)\<rparr>)"
  unfolding handle_inv_def
proof (intro allI impI)
  fix l h assume g: "get_handle (s\<lparr>handles := fmdrop n (handles s)\<rparr>) l = Some h" and b: "block h = None"
  have "get_handle s l = Some h" using g by (cases l) (auto split: if_splits)
  then show "ptr h = None" using b by (rule handle_invD [OF assms])
qed

lemma handle_inv_new_object:
  assumes "handle_inv s"
  shows "handle_inv (s\<lparr>objs := fmupd a \<lparr>val = v, weak_this = (if esft then Some nullh else None)\<rparr> (objs s)\<rparr>)"
  unfolding handle_inv_def
proof (intro allI impI)
  fix l h
  assume g: "get_handle (s\<lparr>objs := fmupd a \<lparr>val = v, weak_this = (if esft then Some nullh else None)\<rparr> (objs s)\<rparr>) l = Some h"
    and b: "block h = None"
  have "h = nullh \<or> get_handle s l = Some h"
    using g by (cases l) (auto split: if_splits)
  then show "ptr h = None"
  proof
    assume "h = nullh"
    then show ?thesis by (simp add: nullh_def)
  next
    assume "get_handle s l = Some h"
    then show ?thesis using b by (rule handle_invD [OF assms])
  qed
qed

lemma handle_inv_share: "share s bo = Some s' \<Longrightarrow> handle_inv s' = handle_inv s"
  by (auto simp: share_def split: option.splits)

lemma handle_inv_Reset:
  assumes "handle_inv s" and "Reset s l = Some s'"
  shows "handle_inv s'"
proof -
  obtain h s1 where h: "get_handle s l = Some h"
    and s1: "(case block h of None \<Rightarrow> Some s | Some b \<Rightarrow> release s b) = Some s1"
    and s': "s' = set_handle l nullh s1"
    using assms(2) by (auto simp: Reset_def split: Option.bind_splits)
  have "handle_inv s1"
  proof (cases "block h")
    case None
    then show ?thesis using s1 assms(1) by simp
  next
    case (Some b)
    then have "release s b = Some s1" using s1 by simp
    then show ?thesis using handle_inv_frame [OF assms(1)] release_frame by blast
  qed
  then show ?thesis unfolding s' by (rule handle_inv_set) (simp add: nullh_def)
qed

text \<open>A handle that takes the fields of another one.\<close>

lemma handle_inv_take:
  assumes "handle_inv s" and "get_handle s other = Some src"
  shows "handle_inv (set_handle this \<lparr>ptr = ptr src, block = block src\<rparr> s)"
  using assms(1) by (rule handle_inv_set) (use handle_invD [OF assms] in simp)

lemma handle_inv_copy_assign:
  assumes "handle_inv s" and "copy_assign s this other = Some s'"
  shows "handle_inv s'"
proof (cases "this = other")
  case True
  then show ?thesis using assms by (auto simp: copy_assign_def split: Option.bind_splits)
next
  case False
  then obtain s1 src where r: "Reset s this = Some s1" and src: "get_handle s1 other = Some src"
    and sh: "share (set_handle this \<lparr>ptr = ptr src, block = block src\<rparr> s1) (block src) = Some s'"
    using assms(2) by (auto simp: copy_assign_def split: Option.bind_splits)
  have "handle_inv s1" by (rule handle_inv_Reset [OF assms(1) r])
  then have "handle_inv (set_handle this \<lparr>ptr = ptr src, block = block src\<rparr> s1)"
    using src by (rule handle_inv_take)
  then show ?thesis using handle_inv_share [OF sh] by simp
qed

lemma handle_inv_move_assign:
  assumes "handle_inv s" and "move_assign s this other = Some s'"
  shows "handle_inv s'"
proof (cases "this = other")
  case True
  then show ?thesis using assms by (auto simp: move_assign_def split: Option.bind_splits)
next
  case False
  then obtain s1 src where r: "Reset s this = Some s1" and src: "get_handle s1 other = Some src"
    and s': "s' = set_handle other nullh (set_handle this \<lparr>ptr = ptr src, block = block src\<rparr> s1)"
    using assms(2) by (auto simp: move_assign_def split: Option.bind_splits)
  have "handle_inv s1" by (rule handle_inv_Reset [OF assms(1) r])
  then have "handle_inv (set_handle this \<lparr>ptr = ptr src, block = block src\<rparr> s1)"
    using src by (rule handle_inv_take)
  then show ?thesis unfolding s' by (rule handle_inv_set) (simp add: nullh_def)
qed

lemma handle_inv_install:
  assumes "handle_inv s" and "MakeEnableSharedFromThis s this p esft = Some s'"
  shows "handle_inv s'"
  using assms handle_inv_copy_assign [of s "Weak (the p)" this s']
  by (auto simp: MakeEnableSharedFromThis_def InternalSetWeakThis_def split: if_splits option.splits)

lemma handle_inv_copy:
  assumes "handle_inv s"
    and "(get_handle s l \<bind> (\<lambda>src. share (set_handle (Var n) \<lparr>ptr = ptr src, block = block src\<rparr> s) (block src))) = Some s'"
  shows "handle_inv s'"
proof -
  obtain src where src: "get_handle s l = Some src"
    and sh: "share (set_handle (Var n) \<lparr>ptr = ptr src, block = block src\<rparr> s) (block src) = Some s'"
    using assms(2) by (auto split: Option.bind_splits)
  have "handle_inv (set_handle (Var n) \<lparr>ptr = ptr src, block = block src\<rparr> s)"
    by (rule handle_inv_take [OF assms(1) src])
  then show ?thesis using handle_inv_share [OF sh] by blast
qed

lemma handle_inv_move:
  assumes "handle_inv s"
    and "(get_handle s l \<bind> (\<lambda>src. Some (set_handle l nullh
        (set_handle (Var n) \<lparr>ptr = ptr src, block = block src\<rparr> s)))) = Some s'"
  shows "handle_inv s'"
proof -
  obtain src where src: "get_handle s l = Some src"
    and s': "s' = set_handle l nullh (set_handle (Var n) \<lparr>ptr = ptr src, block = block src\<rparr> s)"
    using assms(2) by (auto split: Option.bind_splits)
  show ?thesis unfolding s'
    by (rule handle_inv_set [OF handle_inv_take [OF assms(1) src]]) (simp add: nullh_def)
qed

lemma handle_inv_new_block:
  assumes "handle_inv s"
    and "MakeEnableSharedFromThis (set_handle this \<lparr>ptr = p, block = Some b\<rparr> (snd (new_ControlBlock s p)))
           this p esft = Some s'"
  shows "handle_inv s'"
proof -
  have "handle_inv (snd (new_ControlBlock s p))"
    using assms(1) by (simp add: new_ControlBlock_def Let_def)
  then have "handle_inv (set_handle this \<lparr>ptr = p, block = Some b\<rparr> (snd (new_ControlBlock s p)))"
    by (rule handle_inv_set) simp
  then show ?thesis using assms(2) by (rule handle_inv_install)
qed

lemma handle_inv_step:
  assumes inv: "handle_inv s" and guard: "alias_guard s c" and run: "step s c = Some s'"
  shows "handle_inv s'"
proof (cases c)
  case (New v esft)
  then show ?thesis using run handle_inv_new_object [OF inv, of "next_addr s" v esft]
    by (auto simp: client_new_def)
next
  case (Default n)
  then show ?thesis using run handle_inv_set [OF inv, of "\<lparr>ptr = None, block = None\<rparr>" "Var n"]
    by (auto simp: SharedPtr_default_def split: if_splits)
next
  case (Nullptr n)
  then show ?thesis using run handle_inv_set [OF inv, of "\<lparr>ptr = None, block = None\<rparr>" "Var n"]
    by (auto simp: SharedPtr_nullptr_def SharedPtr_default_def split: if_splits)
next
  case (Wrap n p esft)
  show ?thesis
  proof (cases p)
    case None
    then show ?thesis using run Wrap handle_inv_set [OF inv, of "\<lparr>ptr = None, block = None\<rparr>" "Var n"]
      by (auto simp: SharedPtr_ptr_def split: if_splits)
  next
    case (Some a)
    then have "MakeEnableSharedFromThis (set_handle (Var n) \<lparr>ptr = p, block = Some (next_addr s)\<rparr>
        (snd (new_ControlBlock s p))) (Var n) p esft = Some s'"
      using run Wrap by (auto simp: SharedPtr_ptr_def new_ControlBlock_def Let_def split: if_splits)
    then show ?thesis by (rule handle_inv_new_block [OF inv])
  qed
next
  case (Copy n m)
  then show ?thesis using run handle_inv_copy [OF inv, of "Var m" n s']
    by (auto simp: SharedPtr_copy_def split: if_splits)
next
  case (Move n m)
  then show ?thesis using run handle_inv_move [OF inv, of "Var m" n s']
    by (auto simp: SharedPtr_move_def split: if_splits)
next
  case (CopyConv n m)
  then show ?thesis using run handle_inv_copy [OF inv, of "Var m" n s']
    by (auto simp: SharedPtr_copy_conv_def split: if_splits)
next
  case (MoveConv n m)
  then show ?thesis using run handle_inv_move [OF inv, of "Var m" n s']
    by (auto simp: SharedPtr_move_conv_def split: if_splits)
next
  case (Alias n m p)
  then obtain src where src: "fmlookup (handles s) m = Some src"
    and sh: "share (set_handle (Var n) \<lparr>ptr = p, block = block src\<rparr> s) (block src) = Some s'"
    using run by (auto simp: SharedPtr_alias_def split: if_splits Option.bind_splits)
  have "block src = None \<longrightarrow> p = None" using guard Alias src by auto
  then have "handle_inv (set_handle (Var n) \<lparr>ptr = p, block = block src\<rparr> s)"
    by (intro handle_inv_set [OF inv]) simp
  then show ?thesis using handle_inv_share [OF sh] by blast
next
  case (Assign n m)
  then show ?thesis using run handle_inv_copy_assign [OF inv] by auto
next
  case (MoveAssign n m)
  then show ?thesis using run handle_inv_move_assign [OF inv] by auto
next
  case (AssignConv n m)
  then show ?thesis
    using run copy_assign_conv_cases [of s "Var n" "Var m" s'] handle_inv_copy_assign [OF inv] inv
    by auto
next
  case (MoveAssignConv n m)
  then show ?thesis
    using run move_assign_conv_cases [of s "Var n" "Var m" s'] handle_inv_move_assign [OF inv] inv
    by auto
next
  case (ResetNone n)
  then show ?thesis using run handle_inv_Reset [OF inv] by auto
next
  case (ResetPtr n p esft)
  then obtain h where h: "fmlookup (handles s) n = Some h"
    using run by (auto simp: Reset_ptr_def split: Option.bind_splits)
  show ?thesis
  proof (cases "ptr h = p")
    case True
    then show ?thesis using run ResetPtr h inv by (simp add: Reset_ptr_def)
  next
    case False
    then obtain s1 where r: "Reset s (Var n) = Some s1"
      and m: "MakeEnableSharedFromThis (set_handle (Var n) \<lparr>ptr = p, block = Some (next_addr s1)\<rparr>
        (snd (new_ControlBlock s1 p))) (Var n) p esft = Some s'"
      using run ResetPtr h
      by (auto simp: Reset_ptr_def new_ControlBlock_def Let_def split: Option.bind_splits)
    show ?thesis by (rule handle_inv_new_block [OF handle_inv_Reset [OF inv r] m])
  qed
next
  case (SwapWith n m)
  then obtain x y where x: "get_handle s (Var n) = Some x" and y: "get_handle s (Var m) = Some y"
    and s': "s' = set_handle (Var m) \<lparr>ptr = ptr x, block = block x\<rparr>
        (set_handle (Var n) \<lparr>ptr = ptr y, block = block y\<rparr> s)"
    using run by (auto simp: Swap_def split: Option.bind_splits)
  have "handle_inv (set_handle (Var n) \<lparr>ptr = ptr y, block = block y\<rparr> s)"
    by (rule handle_inv_take [OF inv y])
  then show ?thesis unfolding s'
    by (rule handle_inv_set) (use handle_invD [OF inv x] in simp)
next
  case (Destruct n)
  then obtain s1 where r: "Reset s (Var n) = Some s1" and s': "s' = s1\<lparr>handles := fmdrop n (handles s1)\<rparr>"
    using run by (auto simp: SharedPtr_dtor_def split: Option.bind_splits)
  show ?thesis unfolding s' by (rule handle_inv_handles_drop [OF handle_inv_Reset [OF inv r]])
next
  case (Make n r cap esft)
  show ?thesis
  proof (cases r)
    case None
    then have "s' = log [Alloc (next_addr s), Dealloc (next_addr s)] (s\<lparr>next_addr := Suc (Suc (next_addr s))\<rparr>)"
      using run Make by (auto simp: MakeShared_def Let_def split: if_splits)
    then show ?thesis using inv by simp
  next
    case (Some v)
    let ?b = "next_addr s"
    let ?s1 = "log [Alloc ?b, Construct (Suc ?b)]
       (s\<lparr>blocks := fmupd ?b \<lparr>cnt = 1, variant = Control (Suc ?b)\<rparr> (blocks s),
          objs := fmupd (Suc ?b) \<lparr>val = v, weak_this = (if cap then Some nullh else None)\<rparr> (objs s),
          next_addr := Suc (Suc ?b)\<rparr>)"
    let ?s3 = "set_handle (Var n) \<lparr>ptr = Some (Suc ?b), block = Some ?b\<rparr>
       (set_handle (Var n) \<lparr>ptr = None, block = None\<rparr> ?s1)"
    have m: "MakeEnableSharedFromThis ?s3 (Var n) (Some (Suc ?b)) esft = Some s'"
      using run Make Some by (auto simp: MakeShared_def Let_def split: if_splits)
    have "handle_inv (s\<lparr>objs := fmupd (Suc ?b) \<lparr>val = v, weak_this = (if cap then Some nullh else None)\<rparr> (objs s)\<rparr>)"
      by (rule handle_inv_new_object [OF inv])
    then have "handle_inv ?s1" by (rule handle_inv_frame) (simp_all add: log_def)
    then have "handle_inv (set_handle (Var n) \<lparr>ptr = None, block = None\<rparr> ?s1)"
      by (rule handle_inv_set) simp
    then have "handle_inv ?s3" by (rule handle_inv_set) simp
    then show ?thesis using m by (rule handle_inv_install)
  qed
next
  case (FromThis n a)
  then show ?thesis using run handle_inv_copy [OF inv, of "Weak a" n s']
    by (auto simp: SharedFromThis_def Lock_def SharedPtr_copy_def split: if_splits)
qed

lemma handle_inv_init: "handle_inv init_state"
  unfolding handle_inv_def
proof (intro allI impI)
  fix l h assume "get_handle init_state l = Some h"
  then show "ptr h = None" by (cases l) (simp_all add: init_state_def)
qed

section \<open>Aliasing and the empty handle\<close>

text \<open>
  C5, as the code has it.  In every client program whose aliasing constructions each
  have a null view or a source that holds a block, every handle (variable or
  \<^verbatim>\<open>weak_this_\<close>) without a block has a null view.
\<close>

theorem no_block_no_view:
  assumes "handle_inv s" and "guarded s cs" and "exec s cs = Some s'"
  shows "handle_inv s'"
  using assms
proof (induction cs arbitrary: s)
  case Nil
  then show ?case by simp
next
  case (Cons c cs)
  from Cons.prems(3) obtain s1 where c: "step s c = Some s1" and cs: "exec s1 cs = Some s'"
    by (auto split: if_splits option.splits)
  have g: "alias_guard s c" "guarded s1 cs" using Cons.prems(2) c by simp_all
  have "handle_inv s1" by (rule handle_inv_step [OF Cons.prems(1) g(1) c])
  then show ?case using g(2) cs by (rule Cons.IH)
qed

theorem no_block_no_view_witness:
  "handle_inv (init_state :: nat state) \<and>
   guarded (init_state :: nat state)
     [New 5 False, Wrap 0 (Some 0) False, Alias 1 0 (Some 9), Default 2, Alias 3 2 None, ResetPtr 0 None False] \<and>
   exec (init_state :: nat state)
     [New 5 False, Wrap 0 (Some 0) False, Alias 1 0 (Some 9), Default 2, Alias 3 2 None, ResetPtr 0 None False] \<noteq> None \<and>
   handle_inv (the (exec (init_state :: nat state)
     [New 5 False, Wrap 0 (Some 0) False, Alias 1 0 (Some 9), Default 2, Alias 3 2 None, ResetPtr 0 None False]))"
proof -
  let ?cs = "[New 5 False, Wrap 0 (Some 0) False, Alias 1 0 (Some 9), Default 2, Alias 3 2 None,
     ResetPtr 0 None False] :: nat stmt list"
  define S where "S = the (exec init_state ?cs)"
  have i: "handle_inv (init_state :: nat state)" by (rule handle_inv_init)
  have g: "guarded init_state ?cs" by (simp add: run_defs)
  have e: "exec init_state ?cs = Some S" unfolding S_def by (simp add: run_defs)
  have ne: "exec init_state ?cs \<noteq> None" by (simp only: e option.distinct not_False_eq_True)
  have "handle_inv S" by (rule no_block_no_view [OF i g e])
  then show ?thesis unfolding S_def [symmetric] using i g ne by (intro conjI)
qed

text \<open>
  C5, as stated, fails: the aliasing constructor from an empty handle with a view that
  is not null gives a handle without a block whose view is not null.
\<close>

theorem alias_of_empty_counterexample:
  "get_handle (the (exec (init_state :: nat state) [Default 0, Alias 1 0 (Some 7)])) (Var 1) =
     Some \<lparr>ptr = Some 7, block = None\<rparr>"
  by (simp add: run_defs)

section \<open>Assignment of a handle that holds the same pair\<close>

lemma fmupd_same: "fmlookup m k = Some v \<Longrightarrow> fmupd k v m = m"
  by (rule fmap_ext) auto

lemma SharedPtr_eta: "\<lparr>ptr = ptr h, block = block h\<rparr> = h"
  by simp

lemma two_holders:
  assumes wf: "wf_state s" and n: "fmlookup (handles s) n = Some h" "block h = Some b"
    and m: "fmlookup (handles s) m = Some h'" "block h' = Some b" and nm: "n \<noteq> m"
    and B: "fmlookup (blocks s) b = Some B"
  shows "cnt B \<noteq> 1"
proof
  assume "cnt B = 1"
  then have "holders s b = {Var n}" by (rule last_holder [OF wf n B])
  moreover have "Var m \<in> holders s b" using m by (simp add: Var_holder)
  ultimately show False using nm by simp
qed

lemma copy_assign_same_pair:
  assumes wf: "wf_state s" and n: "fmlookup (handles s) n = Some h"
    and m: "fmlookup (handles s) m = Some h'" and eq: "ptr h' = ptr h" "block h' = block h"
  shows "copy_assign s (Var n) (Var m) = Some s"
proof (cases "n = m")
  case True
  then show ?thesis using n by (simp add: copy_assign_def)
next
  case False
  have hh: "h' = h" using eq by simp
  show ?thesis
  proof (cases "block h")
    case None
    have "Reset s (Var n) = Some (s\<lparr>handles := fmupd n nullh (handles s)\<rparr>)"
      by (rule Reset_empty [OF n None])
    then show ?thesis
      using False m hh None n by (simp add: copy_assign_def share_def fmupd_same)
  next
    case (Some b)
    obtain B where B: "fmlookup (blocks s) b = Some B"
      using holder_block_live [OF wf, of "Var n" h b] n Some by auto
    have c: "cnt B \<noteq> 1"
      using two_holders [OF wf n Some m _ False B] eq Some by simp
    have "Reset s (Var n) =
        Some (s\<lparr>handles := fmupd n nullh (handles s), blocks := fmupd b (B\<lparr>cnt := cnt B - 1\<rparr>) (blocks s)\<rparr>)"
      by (rule Reset_shared [OF n Some B c])
    then show ?thesis
      using False m hh Some n B by (simp add: copy_assign_def share_def fmupd_same)
  qed
qed

text \<open>
  C7.  After any client program, copy assignment (same-type and converting) from a handle
  that holds the same block and view as the target leaves the whole state as it is: both
  handles, every count, every pointee and the trace of destructions.  So do copy and
  move assignment of a handle to itself.
\<close>

theorem assignment_of_same_pair_is_noop:
  assumes "exec init_state cs = Some s" and "fmlookup (handles s) n = Some h"
    and "fmlookup (handles s) m = Some h'" and "ptr h' = ptr h" and "block h' = block h"
  shows "copy_assign s (Var n) (Var m) = Some s \<and> copy_assign_conv s (Var n) (Var m) = Some s \<and>
         copy_assign s (Var n) (Var n) = Some s \<and> move_assign s (Var n) (Var n) = Some s \<and>
         copy_assign_conv s (Var n) (Var n) = Some s \<and> move_assign_conv s (Var n) (Var n) = Some s"
proof -
  have wf: "wf_state s" using assms(1) by (rule reachable_wf)
  have "copy_assign s (Var n) (Var m) = Some s"
    by (rule copy_assign_same_pair [OF wf assms(2-5)])
  moreover have "copy_assign_conv s (Var n) (Var m) = Some s"
    using assms(2-5) by (simp add: copy_assign_conv_def)
  moreover have "copy_assign s (Var n) (Var n) = Some s" "move_assign s (Var n) (Var n) = Some s"
    using assms(2) by (simp_all add: copy_assign_def move_assign_def)
  moreover have "copy_assign_conv s (Var n) (Var n) = Some s" "move_assign_conv s (Var n) (Var n) = Some s"
    using assms(2) by (simp_all add: copy_assign_conv_def move_assign_conv_def)
  ultimately show ?thesis by (intro conjI)
qed

theorem assignment_of_same_pair_is_noop_witness:
  "copy_assign (the (exec (init_state :: nat state) [New 5 False, Wrap 0 (Some 0) False, Copy 1 0])) (Var 0) (Var 1) =
     exec (init_state :: nat state) [New 5 False, Wrap 0 (Some 0) False, Copy 1 0] \<and>
   move_assign (the (exec (init_state :: nat state) [New 5 False, Wrap 0 (Some 0) False, Copy 1 0])) (Var 0) (Var 0) =
     exec (init_state :: nat state) [New 5 False, Wrap 0 (Some 0) False, Copy 1 0] \<and>
   UseCount_at (the (exec (init_state :: nat state) [New 5 False, Wrap 0 (Some 0) False, Copy 1 0])) (Var 0) = Some 2 \<and>
   trace (the (exec (init_state :: nat state) [New 5 False, Wrap 0 (Some 0) False, Copy 1 0])) = [Alloc 1]"
proof -
  let ?cs = "[New 5 False, Wrap 0 (Some 0) False, Copy 1 0] :: nat stmt list"
  let ?h = "\<lparr>ptr = Some 0, block = Some 1\<rparr>"
  define S where "S = the (exec init_state ?cs)"
  have e: "exec init_state ?cs = Some S" unfolding S_def by (simp add: run_defs)
  have n: "fmlookup (handles S) 0 = Some ?h" unfolding S_def by (simp add: run_defs)
  have m: "fmlookup (handles S) 1 = Some ?h" unfolding S_def by (simp add: run_defs)
  have u: "UseCount_at S (Var 0) = Some 2" unfolding S_def by (simp add: run_defs)
  have t: "trace S = [Alloc 1]" unfolding S_def by (simp add: run_defs)
  note T = assignment_of_same_pair_is_noop [OF e n m refl refl]
  have "copy_assign S (Var 0) (Var 1) = Some S" "move_assign S (Var 0) (Var 0) = Some S"
    using T by blast+
  then have "copy_assign S (Var 0) (Var 1) = exec init_state ?cs"
    "move_assign S (Var 0) (Var 0) = exec init_state ?cs"
    unfolding e by this+
  then show ?thesis
    unfolding S_def [symmetric] using u t by (intro conjI)
qed

section \<open>Moves\<close>

lemma move_construct:
  assumes wf: "wf_state s" and m: "fmlookup (handles s) m = Some src" and u: "unused s n"
  shows "\<exists>sm sc. SharedPtr_move s n (Var m) = Some sm \<and> SharedPtr_move_conv s n (Var m) = Some sm \<and>
      SharedPtr_copy s n (Var m) = Some sc \<and> SharedPtr_copy_conv s n (Var m) = Some sc \<and>
      get_handle sm (Var m) = Some nullh \<and> UseCount_at sm (Var m) = Some 0 \<and>
      get_handle sm (Var n) = Some src \<and> blocks sm = blocks s \<and>
      map_option (\<lambda>c. c + (if block src = None then 0 else 1)) (UseCount_at sm (Var n)) =
        UseCount_at sc (Var n)"
proof -
  have nm: "n \<noteq> m" using u m by (auto simp: unused_def)
  show ?thesis
  proof (cases "block src")
    case None
    then show ?thesis
      using m u nm
      by (simp add: SharedPtr_move_def SharedPtr_move_conv_def SharedPtr_copy_def
          SharedPtr_copy_conv_def share_def nullh_def UseCount_at_def UseCount_def)
  next
    case (Some b)
    obtain B where B: "fmlookup (blocks s) b = Some B"
      using holder_block_live [OF wf, of "Var m" src b] m Some by auto
    show ?thesis
      using m u nm Some B
      by (simp add: SharedPtr_move_def SharedPtr_move_conv_def SharedPtr_copy_def
          SharedPtr_copy_conv_def share_def nullh_def UseCount_at_def UseCount_def)
  qed
qed

lemma move_assignment:
  assumes wf: "wf_state s" and m: "fmlookup (handles s) m = Some src"
    and n: "fmlookup (handles s) n = Some dst" and nm: "n \<noteq> m"
  shows "\<exists>sm sc. move_assign s (Var n) (Var m) = Some sm \<and> copy_assign s (Var n) (Var m) = Some sc \<and>
      get_handle sm (Var m) = Some nullh \<and> UseCount_at sm (Var m) = Some 0 \<and>
      get_handle sm (Var n) = Some src \<and>
      map_option (\<lambda>c. c + (if block src = None then 0 else 1)) (UseCount_at sm (Var n)) =
        UseCount_at sc (Var n) \<and>
      move_assign_conv s (Var n) (Var m) =
        Some (if block dst = block src \<and> ptr dst = ptr src then s else sm)"
proof -
  obtain s1 where r: "Reset s (Var n) = Some s1" and wf1: "wf_state s1"
    and hs: "handles s1 = fmupd n nullh (handles s)"
    using Reset_wf [OF wf n] by blast
  have g: "get_handle s1 (Var m) = Some src" using m nm by (simp add: hs)
  show ?thesis
  proof (cases "block src")
    case None
    then show ?thesis
      using r g n m nm
      by (auto simp: move_assign_def copy_assign_def move_assign_conv_def share_def nullh_def
          UseCount_at_def UseCount_def)
  next
    case (Some b)
    obtain B where B: "fmlookup (blocks s1) b = Some B"
      using holder_block_live [OF wf1 g Some] by blast
    show ?thesis
      using r g n m nm Some B
      by (auto simp: move_assign_def copy_assign_def move_assign_conv_def share_def nullh_def
          UseCount_at_def UseCount_def)
  qed
qed

text \<open>
  After any client program, for two distinct handles: move construction (same-type and
  converting) and same-type move assignment leave the source empty (\<^verbatim>\<open>Get()\<close> null,
  \<^verbatim>\<open>UseCount()\<close> zero) and give the target the fields of the source; move construction
  changes no count; the count seen by the target is the one the corresponding copy
  gives, less the increment of the copy.  Converting move assignment runs the same
  statements under the test \<^verbatim>\<open>block_ != other.block_ || ptr_ != other.ptr_\<close>.
\<close>

lemma moves_between_distinct_handles:
  assumes "exec init_state cs = Some s" and "fmlookup (handles s) m = Some src" and "n \<noteq> m"
  shows "(unused s n \<longrightarrow>
      (\<exists>sm sc. SharedPtr_move s n (Var m) = Some sm \<and> SharedPtr_move_conv s n (Var m) = Some sm \<and>
         SharedPtr_copy s n (Var m) = Some sc \<and> SharedPtr_copy_conv s n (Var m) = Some sc \<and>
         get_handle sm (Var m) = Some nullh \<and> UseCount_at sm (Var m) = Some 0 \<and>
         get_handle sm (Var n) = Some src \<and> blocks sm = blocks s \<and>
         map_option (\<lambda>c. c + (if block src = None then 0 else 1)) (UseCount_at sm (Var n)) =
           UseCount_at sc (Var n))) \<and>
    (\<forall>dst. fmlookup (handles s) n = Some dst \<longrightarrow>
      (\<exists>sm sc. move_assign s (Var n) (Var m) = Some sm \<and> copy_assign s (Var n) (Var m) = Some sc \<and>
         get_handle sm (Var m) = Some nullh \<and> UseCount_at sm (Var m) = Some 0 \<and>
         get_handle sm (Var n) = Some src \<and>
         map_option (\<lambda>c. c + (if block src = None then 0 else 1)) (UseCount_at sm (Var n)) =
           UseCount_at sc (Var n) \<and>
         move_assign_conv s (Var n) (Var m) =
           Some (if block dst = block src \<and> ptr dst = ptr src then s else sm)))"
proof -
  have wf: "wf_state s" using assms(1) by (rule reachable_wf)
  show ?thesis
    using move_construct [OF wf assms(2), of n] move_assignment [OF wf assms(2) _ assms(3)]
    by blast
qed

text \<open>
  C6.  The handle \<open>1\<close> is a copy of the handle \<open>0\<close>, which wraps a live object.  The
  converting move assignment \<^verbatim>\<open>operator=(SharedPtr<Y>&&)\<close> of the handle \<open>1\<close> to the handle
  \<open>0\<close> finds the same block and view on both sides and does nothing: the source keeps
  its view and \<^verbatim>\<open>UseCount() == 2\<close>.  The same-type \<^verbatim>\<open>operator=(SharedPtr&&)\<close>, whose test
  is \<^verbatim>\<open>this != &other\<close>, at the same input leaves the source empty with
  \<^verbatim>\<open>UseCount() == 0\<close> and the target with the count of a copy less its increment.
\<close>

theorem converting_move_assign_keeps_source:
  "get_handle (the (exec (init_state :: nat state)
       [New 5 False, Wrap 0 (Some 0) False, Copy 1 0, MoveAssignConv 0 1])) (Var 1) =
     Some \<lparr>ptr = Some 0, block = Some 1\<rparr> \<and>
   Get_at (the (exec (init_state :: nat state)
       [New 5 False, Wrap 0 (Some 0) False, Copy 1 0, MoveAssignConv 0 1])) (Var 1) = Some (Some 0) \<and>
   UseCount_at (the (exec (init_state :: nat state)
       [New 5 False, Wrap 0 (Some 0) False, Copy 1 0, MoveAssignConv 0 1])) (Var 1) = Some 2 \<and>
   UseCount_at (the (exec (init_state :: nat state)
       [New 5 False, Wrap 0 (Some 0) False, Copy 1 0, MoveAssignConv 0 1])) (Var 0) = Some 2 \<and>
   get_handle (the (exec (init_state :: nat state)
       [New 5 False, Wrap 0 (Some 0) False, Copy 1 0, MoveAssign 0 1])) (Var 1) =
     Some \<lparr>ptr = None, block = None\<rparr> \<and>
   UseCount_at (the (exec (init_state :: nat state)
       [New 5 False, Wrap 0 (Some 0) False, Copy 1 0, MoveAssign 0 1])) (Var 1) = Some 0 \<and>
   UseCount_at (the (exec (init_state :: nat state)
       [New 5 False, Wrap 0 (Some 0) False, Copy 1 0, MoveAssign 0 1])) (Var 0) = Some 1 \<and>
   UseCount_at (the (exec (init_state :: nat state)
       [New 5 False, Wrap 0 (Some 0) False, Copy 1 0, Assign 0 1])) (Var 0) = Some 2"
  by (simp add: run_defs)

end
